theory Spec2Isabelle
  imports Main "HOL-Library.Signed_Division"
begin

text \<open>
  A verification development for the Go package \<open>serr\<close> (file \<open>serr.go\<close>): structured
  errors with a message, key/value attributes and a wrapped cause, and the text helpers
  \<open>Excerpt\<close> and \<open>Diff\<close>.

  Conventions of the embedding.
  \<^item> A Go \<open>string\<close> and a \<open>[]byte\<close> are both a \<open>string\<close> of HOL, that is a list of
    8-bit characters: \<open>length\<close> is Go's \<open>len\<close>, \<open>drop w b\<close> is \<open>b[w:]\<close> and
    \<open>take (length b - w) b\<close> is \<open>b[:len(b)-w]\<close>.
  \<^item> A \<open>rune\<close> is a natural number (every rune the decoder yields is a code point).
  \<^item> Go's \<open>int\<close> is \<open>int\<close>; the counters of the package are bounded by the lengths of
    the strings they scan, so the 64-bit wrap-around is never reached. Division and
    remainder are Go's truncating ones (\<open>sdiv\<close>, \<open>smod\<close>).
  \<^item> A panic is a value: a function that can panic returns \<open>panic + 'a\<close>.
\<close>

section \<open>The standard library's UTF-8 decoder\<close>

text \<open>
  \<open>Excerpt\<close> and \<open>Diff\<close> call \<open>utf8.DecodeRune\<close>, \<open>utf8.DecodeLastRune\<close> and
  \<open>utf8.RuneCountInString\<close>, range over a string and convert \<open>[]rune\<close> to \<open>string\<close>.
  These belong to Go, not to the package; they are written out here after
  \<open>unicode/utf8\<close>: the table \<open>first\<close> (size and accepted range of the second byte, by
  leading byte), the replacement rune U+FFFD of width 1 for every byte that does not start
  a well-formed encoding, and the backward scan of \<open>DecodeLastRune\<close> over at most
  \<open>UTFMax\<close> bytes.
\<close>

type_synonym rune = nat

definition RuneError :: rune where
  "RuneError = 0xFFFD"

definition UTFMax :: int where
  "UTFMax = 4"

definition first_size :: "nat \<Rightarrow> nat" where
  "first_size p0 = (if p0 < 0xE0 then 2 else if p0 < 0xF0 then 3 else 4)"

definition accept_lo :: "nat \<Rightarrow> nat" where
  "accept_lo p0 = (if p0 = 0xE0 then 0xA0 else if p0 = 0xF0 then 0x90 else 0x80)"

definition accept_hi :: "nat \<Rightarrow> nat" where
  "accept_hi p0 = (if p0 = 0xED then 0x9F else if p0 = 0xF4 then 0x8F else 0xBF)"

definition DecodeRune :: "string \<Rightarrow> rune \<times> nat" where
  "DecodeRune p =
     (if length p < 1 then (RuneError, 0)
      else let p0 = of_char (p ! 0) :: nat in
        if p0 < 0x80 then (p0, 1)
        else if p0 < 0xC2 \<or> 0xF4 < p0 then (RuneError, 1)
        else let sz = first_size p0 in
          if length p < sz then (RuneError, 1)
          else let b1 = of_char (p ! 1) :: nat in
            if b1 < accept_lo p0 \<or> accept_hi p0 < b1 then (RuneError, 1)
            else if sz \<le> 2 then ((p0 mod 0x20) * 0x40 + b1 mod 0x40, 2)
            else let b2 = of_char (p ! 2) :: nat in
              if b2 < 0x80 \<or> 0xBF < b2 then (RuneError, 1)
              else if sz \<le> 3 then
                ((p0 mod 0x10) * 0x1000 + (b1 mod 0x40) * 0x40 + b2 mod 0x40, 3)
              else let b3 = of_char (p ! 3) :: nat in
                if b3 < 0x80 \<or> 0xBF < b3 then (RuneError, 1)
                else ((p0 mod 0x08) * 0x40000 + (b1 mod 0x40) * 0x1000
                       + (b2 mod 0x40) * 0x40 + b3 mod 0x40, 4))"

definition RuneStart :: "char \<Rightarrow> bool" where
  "RuneStart b = (\<not> (0x80 \<le> (of_char b :: nat) \<and> (of_char b :: nat) < 0xC0))"

text \<open>The loop \<open>for start--; start >= lim; start-- { if RuneStart(p[start]) { break } }\<close>.\<close>

function lastStart :: "string \<Rightarrow> int \<Rightarrow> int \<Rightarrow> int" where
  "lastStart p lim start =
     (if start \<ge> lim then
        (if RuneStart (p ! nat start) then start else lastStart p lim (start - 1))
      else start)"
  by pat_completeness auto
termination
  by (relation "measure (\<lambda>(p, lim, start). nat (start - lim + 1))") auto

declare lastStart.simps [simp del]

definition DecodeLastRune :: "string \<Rightarrow> rune \<times> nat" where
  "DecodeLastRune p =
     (let end = int (length p) in
      if end = 0 then (RuneError, 0)
      else let start = end - 1; r = of_char (p ! nat start) :: nat in
        if r < 0x80 then (r, 1)
        else let lim = (if end - UTFMax < 0 then 0 else end - UTFMax);
                 start = lastStart p lim (start - 1);
                 start = (if start < 0 then 0 else start);
                 (r, size) = DecodeRune (drop (nat start) p) in
          if start + int size \<noteq> end then (RuneError, 1) else (r, size))"

text \<open>The conversion \<open>string(rs)\<close> of a rune slice encodes each rune.\<close>

definition EncodeRune :: "rune \<Rightarrow> string" where
  "EncodeRune r =
     (if r \<le> 0x7F then [char_of r]
      else if r \<le> 0x7FF then [char_of (0xC0 + r div 0x40), char_of (0x80 + r mod 0x40)]
      else if (0xD800 \<le> r \<and> r \<le> 0xDFFF) \<or> 0x10FFFF < r then
        [CHR 0xEF, CHR 0xBF, CHR 0xBD]
      else if r \<le> 0xFFFF then
        [char_of (0xE0 + r div 0x1000), char_of (0x80 + (r div 0x40) mod 0x40),
         char_of (0x80 + r mod 0x40)]
      else
        [char_of (0xF0 + r div 0x40000), char_of (0x80 + (r div 0x1000) mod 0x40),
         char_of (0x80 + (r div 0x40) mod 0x40), char_of (0x80 + r mod 0x40)])"

definition string_of_runes :: "rune list \<Rightarrow> string" where
  "string_of_runes rs = concat (map EncodeRune rs)"

lemma DecodeRune_size:
  "p \<noteq> [] \<Longrightarrow> 1 \<le> snd (DecodeRune p) \<and> snd (DecodeRune p) \<le> length p"
  by (cases p) (auto simp: DecodeRune_def Let_def first_size_def Suc_le_eq split: if_splits)

lemma DecodeRune_drop_less:
  "p \<noteq> [] \<Longrightarrow> (r, w) = DecodeRune p \<Longrightarrow> length p - w < length p"
  using DecodeRune_size [of p] by (cases p) (auto simp: prod_eq_iff)

lemma lastStart_le: "lastStart p lim start \<le> start"
  by (induction p lim start rule: lastStart.induct) (subst lastStart.simps, auto)

lemma lastStart_ge: "lim - 1 \<le> start \<Longrightarrow> lim - 1 \<le> lastStart p lim start"
  by (induction p lim start rule: lastStart.induct) (subst lastStart.simps, auto)

lemma DecodeLastRune_size:
  "p \<noteq> [] \<Longrightarrow> 1 \<le> snd (DecodeLastRune p) \<and> snd (DecodeLastRune p) \<le> length p"
proof -
  assume "p \<noteq> []"
  then have "1 \<le> length p" by (cases p) auto
  then show ?thesis
    using lastStart_le [of p "if int (length p) - UTFMax < 0 then 0 else int (length p) - UTFMax"
        "int (length p) - 1 - 1"]
    by (auto simp: DecodeLastRune_def Let_def split: prod.splits)
qed

lemma DecodeLastRune_take_less:
  "p \<noteq> [] \<Longrightarrow> (r, w) = DecodeLastRune p \<Longrightarrow> length p - w < length p"
  using DecodeLastRune_size [of p] by (cases p) (auto simp: prod_eq_iff)

text \<open>\<open>utf8.RuneCountInString\<close>: the number of decoding steps from the front.\<close>

function RuneCountInString :: "string \<Rightarrow> nat" where
  "RuneCountInString s =
     (if s = [] then 0
      else let (r, w) = DecodeRune s in Suc (RuneCountInString (drop w s)))"
  by pat_completeness auto
termination
  by (relation "measure length") (auto dest: DecodeRune_drop_less)

declare RuneCountInString.simps [simp del]

section \<open>Excerpt\<close>

definition EllipsisRune :: string where
  "EllipsisRune = [CHR 0xE2, CHR 0x80, CHR 0xA6]"

text \<open>
  \<open>prefixRunes\<close>: the loop \<open>for i, r := range input { if i >= n { break }; ... }\<close>. Ranging
  over a string yields, with each rune, the index of its first byte, so \<open>i\<close> advances by
  the width of the rune.
\<close>

function prefixRunes_loop :: "int \<Rightarrow> nat \<Rightarrow> string \<Rightarrow> rune list \<Rightarrow> rune list" where
  "prefixRunes_loop n i b result =
     (if b = [] then result
      else let (r, w) = DecodeRune b in
        if int i \<ge> n then result
        else prefixRunes_loop n (i + w) (drop w b) (result @ [r]))"
  by pat_completeness auto
termination
  by (relation "measure (\<lambda>(n, i, b, result). length b)") (auto dest: DecodeRune_drop_less)

declare prefixRunes_loop.simps [simp del]

definition prefixRunes :: "string \<Rightarrow> int \<Rightarrow> string" where
  "prefixRunes input n = string_of_runes (prefixRunes_loop n 0 input [])"

function suffixRunes_loop :: "int \<Rightarrow> int \<Rightarrow> string \<Rightarrow> rune list \<Rightarrow> rune list" where
  "suffixRunes_loop n count b result =
     (if count < n \<and> length b > 0 then
        let (r, size) = DecodeLastRune b in
          suffixRunes_loop n (count + 1) (take (length b - size) b) (result @ [r])
      else result)"
  by pat_completeness auto
termination
  by (relation "measure (\<lambda>(n, count, b, result). length b)")
    (auto dest: DecodeLastRune_take_less)

declare suffixRunes_loop.simps [simp del]

definition suffixRunes :: "string \<Rightarrow> int \<Rightarrow> string" where
  "suffixRunes input n = string_of_runes (rev (suffixRunes_loop n 0 input []))"

definition Excerpt :: "string \<Rightarrow> int \<Rightarrow> string" where
  "Excerpt s width =
     (let cnt = int (RuneCountInString s) in
      if cnt \<le> width then s
      else let prefix = width sdiv 2;
               suffix = prefix;
               suffix = (if cnt \<ge> width \<and> width smod 2 = 0 then suffix - 1 else suffix)
           in prefixRunes s prefix @ EllipsisRune @ suffixRunes s suffix)"

section \<open>Diff\<close>

function Diff_prefix_loop :: "string \<Rightarrow> string \<Rightarrow> int \<Rightarrow> string \<times> string \<times> int" where
  "Diff_prefix_loop b1 b2 start =
     (if length b1 > 0 \<and> length b2 > 0 then
        let (ch1, width1) = DecodeRune b1;
            (ch2, width2) = DecodeRune b2
        in if ch1 \<noteq> ch2 then (b1, b2, start)
           else Diff_prefix_loop (drop width1 b1) (drop width2 b2) (start + 1)
      else (b1, b2, start))"
  by pat_completeness auto
termination
  by (relation "measure (\<lambda>(b1, b2, start). length b1)") (auto dest: DecodeRune_drop_less)

declare Diff_prefix_loop.simps [simp del]

function Diff_suffix_loop :: "string \<Rightarrow> string \<Rightarrow> int \<Rightarrow> string \<times> string \<times> int" where
  "Diff_suffix_loop b1 b2 end =
     (if length b1 > 0 \<and> length b2 > 0 then
        let (ch1, width1) = DecodeLastRune b1;
            (ch2, width2) = DecodeLastRune b2
        in if ch1 \<noteq> ch2 then (b1, b2, end)
           else Diff_suffix_loop (take (length b1 - width1) b1) (take (length b2 - width2) b2)
                  (end + 1)
      else (b1, b2, end))"
  by pat_completeness auto
termination
  by (relation "measure (\<lambda>(b1, b2, end). length b1)") (auto dest: DecodeLastRune_take_less)

declare Diff_suffix_loop.simps [simp del]

text \<open>
  \<open>Diff\<close> as it is written: the jump to \<open>end\<close> for equal inputs leaves both loops of the
  second half and the two tests against \<open>n\<close> out.
\<close>

definition Diff :: "string \<Rightarrow> string \<Rightarrow> int \<Rightarrow> string \<times> string \<times> int \<times> int" where
  "Diff s1 s2 n =
     (let (b1, b2, start) = Diff_prefix_loop s1 s2 0 in
      if int (length b1) + int (length b2) = 0 then ([], [], start, 0)
      else let (b1, b2, end) = Diff_suffix_loop b1 b2 0;
               s1 = b1;
               s2 = b2;
               s1 = (if int (length b1) > n then Excerpt s1 n else s1);
               s2 = (if int (length b2) > n then Excerpt s2 n else s2)
           in (s1, s2, start, end))"

text \<open>
  The differing regions of two strings, before any excerpting: what is left of each once
  the common leading runes and then the common trailing runes are cut off, with the two
  counts.
\<close>

definition Diff_regions :: "string \<Rightarrow> string \<Rightarrow> string \<times> string \<times> int \<times> int" where
  "Diff_regions s1 s2 =
     (let (b1, b2, start) = Diff_prefix_loop s1 s2 0;
          (b1, b2, end) = Diff_suffix_loop b1 b2 0
      in (b1, b2, start, end))"

section \<open>Structured errors\<close>

subsection \<open>Attribute values and their formatting\<close>

text \<open>
  An attribute is a Go \<open>any\<close>. Strings, integers and booleans are kept as they are; a
  value of any other type is kept as the text that \<open>fmt.Sprintf("%v", v)\<close> gives for it.
\<close>

datatype any = AString string | AInt int | ABool bool | AOther string

function digits :: "nat \<Rightarrow> string" where
  "digits n =
     (if n < 10 then [''0123456789'' ! n]
      else digits (n div 10) @ [''0123456789'' ! (n mod 10)])"
  by pat_completeness auto
termination
  by (relation "measure id") auto

declare digits.simps [simp del]

definition itoa :: "int \<Rightarrow> string" where
  "itoa i = (if i < 0 then ''-'' @ digits (nat (- i)) else digits (nat i))"

text \<open>\<open>fmt.Sprintf("%v", v)\<close>.\<close>

fun fmt_v :: "any \<Rightarrow> string" where
  "fmt_v (AString s) = s"
| "fmt_v (AInt i) = itoa i"
| "fmt_v (ABool b) = (if b then ''true'' else ''false'')"
| "fmt_v (AOther s) = s"

subsection \<open>The store\<close>

text \<open>
  Structured errors are heap objects that point to each other and are updated in place,
  and the guard list \<open>recurs\<close> is a slice whose backing array a clone shares with its
  original. The store therefore holds the objects (an \<open>*sError\<close> is an index into
  \<open>objs\<close>) and the backing arrays of the \<open>recurs\<close> slices (a slice is an array and a
  length; its capacity is the length of the array, and its offset is always 0 because the
  package only ever reslices \<open>[:len-1]\<close>).

  A value of the interface \<open>error\<close> is nil, a pointer to a structured error, or an error
  of another package, which is represented by the text its \<open>Error()\<close> returns. The
  embedded \<open>error\<close> of an \<open>sError\<close> is of the last kind in every object the package
  builds (\<open>errors.New(msg)\<close> in \<open>New\<close>), so the field holds that text.
\<close>

type_synonym addr = nat

datatype error = ErrNil | ErrString string | ErrPtr addr

datatype slice = SliceNil | Slice nat nat

datatype panic = PanicArgs | PanicSealed | PanicKey | PanicNilDeref | PanicBounds

record sError =
  error :: string
  err :: error
  args :: "any list"
  validArgs :: "string list"
  recurs :: slice
  sealed :: bool
  locked :: bool
  cloneWrapped :: bool

record store =
  objs :: "sError list"
  arrays :: "addr option list list"

definition empty_store :: store where
  "empty_store = \<lparr>objs = [], arrays = []\<rparr>"

text \<open>Reading through a pointer that is not an object of the store panics, as nil does.\<close>

definition deref :: "store \<Rightarrow> addr \<Rightarrow> panic + sError" where
  "deref \<sigma> a = (if a < length (objs \<sigma>) then Inr (objs \<sigma> ! a) else Inl PanicNilDeref)"

definition put :: "store \<Rightarrow> addr \<Rightarrow> sError \<Rightarrow> store" where
  "put \<sigma> a se = \<sigma>\<lparr>objs := (objs \<sigma>)[a := se]\<rparr>"

definition alloc :: "store \<Rightarrow> sError \<Rightarrow> store \<times> addr" where
  "alloc \<sigma> se = (\<sigma>\<lparr>objs := objs \<sigma> @ [se]\<rparr>, length (objs \<sigma>))"

subsection \<open>Constructors, builders and accessors\<close>

definition New :: "store \<Rightarrow> string \<Rightarrow> store \<times> addr" where
  "New \<sigma> msg = alloc \<sigma> \<lparr>error = msg, err = ErrNil, args = [], validArgs = [],
     recurs = SliceNil, sealed = False, locked = False, cloneWrapped = False\<rparr>"

definition String :: "store \<Rightarrow> addr \<Rightarrow> panic + string" where
  "String \<sigma> a = (case deref \<sigma> a of Inl p \<Rightarrow> Inl p | Inr se \<Rightarrow> Inr (error se))"

text \<open>\<open>argsString\<close>: the loop \<open>for i := 0; i < len(se.args)-1; i += 2\<close>.\<close>

function argsString_loop :: "any list \<Rightarrow> nat \<Rightarrow> string \<Rightarrow> string" where
  "argsString_loop as i sb =
     (if int i < int (length as) - 1 then
        argsString_loop as (i + 2)
          (sb @ '' ['' @ fmt_v (as ! i) @ ''=''
              @ (case as ! (i + 1) of
                   AString v \<Rightarrow> [CHR 0x27] @ v @ [CHR 0x27]
                 | v \<Rightarrow> fmt_v v)
              @ '']'')
      else sb)"
  by pat_completeness auto
termination
  by (relation "measure (\<lambda>(as, i, sb). length as - i)") auto

declare argsString_loop.simps [simp del]

definition argsString :: "sError \<Rightarrow> string" where
  "argsString se = argsString_loop (args se) 0 []"

definition chkArgs :: "sError \<Rightarrow> int \<Rightarrow> panic + unit" where
  "chkArgs se count = (if count smod 2 \<noteq> 0 then Inl PanicArgs else Inr ())"

text \<open>\<open>Clone\<close> copies six fields; \<open>locked\<close> and \<open>cloneWrapped\<close> start at their zero value.\<close>

definition Clone :: "store \<Rightarrow> addr \<Rightarrow> panic + store \<times> addr" where
  "Clone \<sigma> a =
     (case deref \<sigma> a of Inl p \<Rightarrow> Inl p
      | Inr se \<Rightarrow> Inr (alloc \<sigma> \<lparr>error = error se, err = err se, args = args se,
          validArgs = validArgs se, recurs = recurs se, sealed = sealed se,
          locked = False, cloneWrapped = False\<rparr>))"

definition CloneWrap :: "store \<Rightarrow> addr \<Rightarrow> panic + store \<times> addr" where
  "CloneWrap \<sigma> a =
     (case Clone \<sigma> a of Inl p \<Rightarrow> Inl p
      | Inr (\<sigma>1, sErr) \<Rightarrow>
          Inr (put \<sigma>1 sErr ((objs \<sigma>1 ! sErr)\<lparr>cloneWrapped := True, err := ErrPtr a\<rparr>), sErr))"

definition Args :: "store \<Rightarrow> addr \<Rightarrow> any list \<Rightarrow> panic + store \<times> addr" where
  "Args \<sigma> a as =
     (case deref \<sigma> a of Inl p \<Rightarrow> Inl p
      | Inr se \<Rightarrow>
         (case chkArgs se (int (length as)) of Inl p \<Rightarrow> Inl p
          | Inr _ \<Rightarrow> CloneWrap (put \<sigma> a (se\<lparr>args := as\<rparr>)) a))"

definition GetArgs :: "store \<Rightarrow> addr \<Rightarrow> panic + any list" where
  "GetArgs \<sigma> a = (case deref \<sigma> a of Inl p \<Rightarrow> Inl p | Inr se \<Rightarrow> Inr (args se))"

definition Err :: "store \<Rightarrow> addr \<Rightarrow> error \<Rightarrow> any list \<Rightarrow> panic + store \<times> addr" where
  "Err \<sigma> a e as =
     (case deref \<sigma> a of Inl p \<Rightarrow> Inl p
      | Inr se \<Rightarrow>
         let \<sigma>1 = put \<sigma> a (se\<lparr>err := e\<rparr>) in
         if length as > 0 then
           (case Args \<sigma>1 a as of Inl p \<Rightarrow> Inl p | Inr (\<sigma>2, se2) \<Rightarrow> CloneWrap \<sigma>2 se2)
         else CloneWrap \<sigma>1 a)"

definition Unwrap :: "store \<Rightarrow> addr \<Rightarrow> panic + error" where
  "Unwrap \<sigma> a = (case deref \<sigma> a of Inl p \<Rightarrow> Inl p | Inr se \<Rightarrow> Inr (err se))"

definition Wrap :: "store \<Rightarrow> error \<Rightarrow> string \<Rightarrow> any list \<Rightarrow> panic + store \<times> addr" where
  "Wrap \<sigma> e msg as =
     (let (\<sigma>1, n) = New \<sigma> msg in
      case Err \<sigma>1 n e [] of Inl p \<Rightarrow> Inl p
      | Inr (\<sigma>2, sErr) \<Rightarrow> if length as > 0 then Args \<sigma>2 sErr as else Inr (\<sigma>2, sErr))"

text \<open>
  \<open>ValidArgs\<close> records the allow-list once. (The text of its panic, which renders the
  error, is not part of the model; a panic is identified by its kind.)
\<close>

definition ValidArgs :: "store \<Rightarrow> addr \<Rightarrow> string list \<Rightarrow> panic + store \<times> addr" where
  "ValidArgs \<sigma> a keys =
     (case deref \<sigma> a of Inl p \<Rightarrow> Inl p
      | Inr se \<Rightarrow>
         if sealed se then Inl PanicSealed
         else Inr (put \<sigma> a (se\<lparr>validArgs := keys, sealed := True\<rparr>), a))"

definition NoArgs :: "store \<Rightarrow> addr \<Rightarrow> store \<times> addr" where
  "NoArgs \<sigma> a = (\<sigma>, a)"

text \<open>
  \<open>Attrs\<close>: \<open>len(se.args)/2\<close> attributes, the \<open>i\<close>-th from \<open>args[2*i]\<close> and
  \<open>args[2*i+1]\<close>; a key that is not a string panics. An \<open>slog.Attr\<close> is a key and a value.
\<close>

fun Attrs_loop ::
  "any list \<Rightarrow> nat \<Rightarrow> nat \<Rightarrow> (string \<times> any) list \<Rightarrow> panic + (string \<times> any) list" where
  "Attrs_loop as i 0 attrs = Inr attrs"
| "Attrs_loop as i (Suc k) attrs =
     (case as ! (2 * i) of
        AString key \<Rightarrow> Attrs_loop as (Suc i) k (attrs @ [(key, as ! (2 * i + 1))])
      | _ \<Rightarrow> Inl PanicKey)"

definition Attrs :: "store \<Rightarrow> addr \<Rightarrow> panic + (string \<times> any) list" where
  "Attrs \<sigma> a =
     (case deref \<sigma> a of Inl p \<Rightarrow> Inl p
      | Inr se \<Rightarrow> let numArgs = length (args se) in Attrs_loop (args se) 0 (numArgs div 2) [])"

text \<open>\<open>Attr\<close>: the first attribute with the key; \<open>None\<close> stands for \<open>found = false\<close>.\<close>

fun Attr_loop :: "(string \<times> any) list \<Rightarrow> string \<Rightarrow> (string \<times> any) option" where
  "Attr_loop [] key = None"
| "Attr_loop (try # rest) key = (if fst try \<noteq> key then Attr_loop rest key else Some try)"

definition Attr :: "store \<Rightarrow> addr \<Rightarrow> string \<Rightarrow> panic + (string \<times> any) option" where
  "Attr \<sigma> a key = (case Attrs \<sigma> a of Inl p \<Rightarrow> Inl p | Inr attrs \<Rightarrow> Inr (Attr_loop attrs key))"

subsection \<open>Rendering, with the recursion guard\<close>

text \<open>\<open>recursing\<close>: the loop \<open>for i := len(se.recurs) - 1; i >= 0; i--\<close>.\<close>

fun recursing_loop :: "addr \<Rightarrow> addr option list \<Rightarrow> nat \<Rightarrow> bool" where
  "recursing_loop a cells 0 = False"
| "recursing_loop a cells (Suc i) =
     (if cells ! i = Some a then True else recursing_loop a cells i)"

definition recursing :: "store \<Rightarrow> addr \<Rightarrow> bool" where
  "recursing \<sigma> a =
     (case recurs (objs \<sigma> ! a) of
        SliceNil \<Rightarrow> False
      | Slice b l \<Rightarrow> recursing_loop a (arrays \<sigma> ! b) l)"

text \<open>
  Go's \<open>append(s, x)\<close>: with room left, \<open>x\<close> is written into the backing array, where every
  slice on that array sees it; otherwise the elements move to a new array. How much larger
  the new array is, is the runtime's choice: \<open>grow\<close> maps the old capacity to the new one,
  and the new array always has room for the element.
\<close>

definition append_slice :: "(nat \<Rightarrow> nat) \<Rightarrow> store \<Rightarrow> slice \<Rightarrow> addr \<Rightarrow> store \<times> slice" where
  "append_slice grow \<sigma> s x =
     (let (old, cap) = (case s of SliceNil \<Rightarrow> ([], 0)
                        | Slice b l \<Rightarrow> (take l (arrays \<sigma> ! b), length (arrays \<sigma> ! b)));
          l = length old;
          fresh = old @ [Some x] @ replicate (max (grow cap) (Suc l) - Suc l) None
      in case s of
           Slice b _ \<Rightarrow>
             if l < cap then
               (\<sigma>\<lparr>arrays := (arrays \<sigma>)[b := (arrays \<sigma> ! b)[l := Some x]]\<rparr>, Slice b (Suc l))
             else (\<sigma>\<lparr>arrays := arrays \<sigma> @ [fresh]\<rparr>, Slice (length (arrays \<sigma>)) (Suc l))
         | SliceNil \<Rightarrow> (\<sigma>\<lparr>arrays := arrays \<sigma> @ [fresh]\<rparr>, Slice (length (arrays \<sigma>)) (Suc l)))"

definition go_grow :: "nat \<Rightarrow> nat" where
  "go_grow cap = (if cap = 0 then 1 else if cap < 256 then 2 * cap else cap + (cap + 768) div 4)"

text \<open>
  \<open>Error\<close> calls itself through \<open>selfError\<close> and the cause, and nothing in its text bounds
  the depth, so the recursion is given fuel: \<open>None\<close> is "did not return within the
  fuel". \<open>selfError\<close> and the body of \<open>Error\<close> take the recursive call as \<open>rec\<close>.
\<close>

type_synonym 'a result = "(panic + store \<times> 'a) option"

text \<open>The call \<open>se.err.Error()\<close>, dispatched on what the cause is.\<close>

definition error_Error ::
  "(store \<Rightarrow> addr \<Rightarrow> string result) \<Rightarrow> store \<Rightarrow> error \<Rightarrow> string result" where
  "error_Error rec \<sigma> e =
     (case e of
        ErrNil \<Rightarrow> Some (Inl PanicNilDeref)
      | ErrString m \<Rightarrow> Some (Inr (\<sigma>, m))
      | ErrPtr b \<Rightarrow> rec \<sigma> b)"

definition selfError ::
  "(nat \<Rightarrow> nat) \<Rightarrow> (store \<Rightarrow> addr \<Rightarrow> string result) \<Rightarrow> store \<Rightarrow> addr \<Rightarrow> string result" where
  "selfError grow rec \<sigma> a =
     (if \<not> recursing \<sigma> a then
        let se = objs \<sigma> ! a;
            (\<sigma>1, sl) = append_slice grow \<sigma> (recurs se) a;
            \<sigma>2 = put \<sigma>1 a (se\<lparr>recurs := sl\<rparr>)
        in case error_Error rec \<sigma>2 (err (objs \<sigma>2 ! a)) of
             None \<Rightarrow> None
           | Some (Inl p) \<Rightarrow> Some (Inl p)
           | Some (Inr (\<sigma>3, s)) \<Rightarrow>
               (case recurs (objs \<sigma>3 ! a) of
                  Slice b (Suc l) \<Rightarrow>
                    Some (Inr (put \<sigma>3 a ((objs \<sigma>3 ! a)\<lparr>recurs := Slice b l\<rparr>), s))
                | _ \<Rightarrow> Some (Inl PanicBounds))
      else Some (Inr (\<sigma>, [])))"

text \<open>
  The body of \<open>Error\<close>. With a cause, the text with \<open>"; "\<close> and the cause is assigned to
  \<open>s\<close>, and the next statement assigns \<open>s\<close> again.
\<close>

definition Error_body ::
  "(nat \<Rightarrow> nat) \<Rightarrow> (store \<Rightarrow> addr \<Rightarrow> string result) \<Rightarrow> store \<Rightarrow> addr \<Rightarrow> string result" where
  "Error_body grow rec \<sigma> a =
     (case deref \<sigma> a of Inl p \<Rightarrow> Some (Inl p)
      | Inr se \<Rightarrow>
         if err se = ErrNil then Some (Inr (\<sigma>, error se @ argsString se))
         else case selfError grow rec \<sigma> a of
                None \<Rightarrow> None
              | Some (Inl p) \<Rightarrow> Some (Inl p)
              | Some (Inr (\<sigma>1, self)) \<Rightarrow>
                  let se1 = objs \<sigma>1 ! a;
                      s = (if self \<noteq> [] then error se1 @ argsString se1 @ ''; '' @ self
                           else []);
                      s = error se1 @ argsString se1
                  in Some (Inr (\<sigma>1, s)))"

primrec Error_fuel :: "(nat \<Rightarrow> nat) \<Rightarrow> nat \<Rightarrow> store \<Rightarrow> addr \<Rightarrow> string result" where
  "Error_fuel grow 0 \<sigma> a = None"
| "Error_fuel grow (Suc n) \<sigma> a = Error_body grow (Error_fuel grow n) \<sigma> a"

text \<open>The text that a run of \<open>Error\<close> returns, without the store.\<close>

definition Error_text :: "(nat \<Rightarrow> nat) \<Rightarrow> nat \<Rightarrow> store \<Rightarrow> addr \<Rightarrow> (panic + string) option" where
  "Error_text grow n \<sigma> a = map_option (map_sum id snd) (Error_fuel grow n \<sigma> a)"

section \<open>Excerpt on strings of several bytes per rune\<close>

definition eacute :: string where
  "eacute = [CHR 0xC3, CHR 0xA9]"

text \<open>
  C5. \<open>Excerpt\<close> of a string longer than the width should be the first \<open>w/2\<close> runes, the
  ellipsis and the last \<open>w/2\<close> (odd \<open>w\<close>) or \<open>w/2 - 1\<close> (even \<open>w\<close>) runes. It is so on the two
  ASCII examples. On six two-byte runes and width 5 the prefix is one rune, not two:
  \<open>prefixRunes\<close> compares the byte offset of the rune with the number of runes wanted.
\<close>

theorem Excerpt_prefix_by_byte_offset:
  "Excerpt ''ABCDEFGHIJ'' 7 = ''ABC'' @ EllipsisRune @ ''HIJ''
   \<and> Excerpt ''ABCDEFGHIJ'' 3 = ''A'' @ EllipsisRune @ ''J''
   \<and> RuneCountInString (concat (replicate 6 eacute)) = 6
   \<and> Excerpt (concat (replicate 6 eacute)) 5 = eacute @ EllipsisRune @ eacute @ eacute"
  by code_simp

text \<open>
  C2. The number of runes of \<open>Excerpt s w\<close> should be the smaller of \<open>w\<close> and the number
  of runes of \<open>s\<close>. Six two-byte runes at width 5 give 4 runes, by the prefix that
  \<open>prefixRunes\<close> cuts at a byte offset; and a one-rune string at width 0 gives one rune,
  the ellipsis, where the suffix length is \<open>-1\<close>.
\<close>

theorem Excerpt_rune_count_off:
  "RuneCountInString (concat (replicate 6 eacute)) = 6
   \<and> RuneCountInString (Excerpt (concat (replicate 6 eacute)) 5) = 4
   \<and> RuneCountInString ''A'' = 1
   \<and> RuneCountInString (Excerpt ''A'' 0) = 1"
  by code_simp

section \<open>Causes: \<open>Err\<close>, \<open>Wrap\<close> and \<open>Unwrap\<close>\<close>

lemmas builder_defs =
  New_def Err_def Args_def Wrap_def CloneWrap_def Clone_def Unwrap_def GetArgs_def
  chkArgs_def deref_def put_def alloc_def

text \<open>
  C3, as stated: \<open>Unwrap\<close> on what \<open>se.Err(c)\<close> returns should be \<open>c\<close>. With \<open>c\<close> the
  error of \<open>New("boom")\<close> and \<open>se\<close> that of \<open>New("context")\<close>, it is \<open>se\<close>.
\<close>

theorem Err_Unwrap_is_receiver:
  "(case New empty_store ''boom'' of (\<sigma>0, c) \<Rightarrow>
     case New \<sigma>0 ''context'' of (\<sigma>1, se) \<Rightarrow>
       case Err \<sigma>1 se (ErrPtr c) [] of
         Inl p \<Rightarrow> False
       | Inr (\<sigma>2, r) \<Rightarrow> Unwrap \<sigma>2 r = Inr (ErrPtr se) \<and> Unwrap \<sigma>2 r \<noteq> Inr (ErrPtr c))"
  by (simp add: builder_defs empty_store_def)

text \<open>
  C3, amended. \<open>se.Err(c)\<close> without attributes stores \<open>c\<close> in \<open>se\<close> and returns a new
  object, the clone made by \<open>CloneWrap\<close>, whose cause is \<open>se\<close>: \<open>Unwrap\<close> of the result is
  \<open>se\<close>, and \<open>Unwrap\<close> of \<open>se\<close> is \<open>c\<close>. \<open>Wrap(c, msg)\<close> is \<open>New(msg).Err(c)\<close>, so \<open>Unwrap\<close> of
  its result is the error that \<open>New(msg)\<close> made, whose \<open>Unwrap\<close> is \<open>c\<close>. An error fresh
  from \<open>New\<close> unwraps to nil.
\<close>

theorem Err_Unwrap_twice:
  assumes "se < length (objs \<sigma>)"
  shows "(\<exists>\<sigma>'. Err \<sigma> se c [] = Inr (\<sigma>', length (objs \<sigma>))
            \<and> Unwrap \<sigma>' (length (objs \<sigma>)) = Inr (ErrPtr se)
            \<and> Unwrap \<sigma>' se = Inr c)
       \<and> (\<exists>\<sigma>'. Wrap \<sigma> c msg [] = Inr (\<sigma>', Suc (length (objs \<sigma>)))
            \<and> Unwrap \<sigma>' (Suc (length (objs \<sigma>))) = Inr (ErrPtr (length (objs \<sigma>)))
            \<and> Unwrap \<sigma>' (length (objs \<sigma>)) = Inr c)
       \<and> Unwrap (fst (New \<sigma> msg)) (snd (New \<sigma> msg)) = Inr ErrNil"
  using assms by (simp add: builder_defs nth_append)

theorem Err_Unwrap_twice_witness:
  "(\<exists>\<sigma>'. Err (fst (New empty_store ''boom'')) 0 (ErrString ''eof'') [] = Inr (\<sigma>', 1)
       \<and> Unwrap \<sigma>' 1 = Inr (ErrPtr 0) \<and> Unwrap \<sigma>' 0 = Inr (ErrString ''eof''))
   \<and> (\<exists>\<sigma>'. Wrap (fst (New empty_store ''boom'')) (ErrString ''eof'') ''context'' [] = Inr (\<sigma>', 2)
       \<and> Unwrap \<sigma>' 2 = Inr (ErrPtr 1) \<and> Unwrap \<sigma>' 1 = Inr (ErrString ''eof''))"
  using Err_Unwrap_twice [of 0 "fst (New empty_store ''boom'')" "ErrString ''eof''" "''context''"]
  by (simp add: New_def alloc_def empty_store_def numeral_2_eq_2)

section \<open>\<open>Args\<close>\<close>

text \<open>
  C8. \<open>Args\<close> panics exactly when the number of its arguments is odd, and the panic is the
  one of \<open>chkArgs\<close>. Otherwise it stores the arguments as the attribute list of the
  receiver, and returns a new object (the clone of \<open>CloneWrap\<close>) with the same list.
\<close>

theorem Args_panics_iff_odd:
  assumes "a < length (objs \<sigma>)"
  shows "(Args \<sigma> a as = Inl PanicArgs \<longleftrightarrow> odd (length as))
       \<and> (isl (Args \<sigma> a as) \<longleftrightarrow> odd (length as))
       \<and> (even (length as) \<longrightarrow>
            (\<exists>\<sigma>'. Args \<sigma> a as = Inr (\<sigma>', length (objs \<sigma>))
               \<and> GetArgs \<sigma>' a = Inr as \<and> GetArgs \<sigma>' (length (objs \<sigma>)) = Inr as))"
  using assms
  by (auto simp add: builder_defs nth_append signed_modulo_int_def split: sum.splits)

theorem Args_panics_iff_odd_witness:
  "Args (fst (New empty_store ''m'')) 0 [AString ''a''] = Inl PanicArgs
   \<and> Args (fst (New empty_store ''m'')) 0 [AString ''a'', AInt 1, AString ''b''] = Inl PanicArgs
   \<and> (\<exists>\<sigma>'. Args (fst (New empty_store ''m'')) 0 [AString ''a'', AInt 1] = Inr (\<sigma>', 1)
        \<and> GetArgs \<sigma>' 0 = Inr [AString ''a'', AInt 1]
        \<and> GetArgs \<sigma>' 1 = Inr [AString ''a'', AInt 1])"
  using Args_panics_iff_odd [of 0 "fst (New empty_store ''m'')" "[AString ''a'']"]
    Args_panics_iff_odd [of 0 "fst (New empty_store ''m'')" "[AString ''a'', AInt 1, AString ''b'']"]
    Args_panics_iff_odd [of 0 "fst (New empty_store ''m'')" "[AString ''a'', AInt 1]"]
  by (simp add: New_def alloc_def empty_store_def)

section \<open>Properties of rendering\<close>

text \<open>Rendering allocates backing arrays and updates \<open>recurs\<close>; it never adds or removes an object.\<close>

lemma append_slice_objs [simp]: "objs (fst (append_slice g \<sigma> s x)) = objs \<sigma>"
  by (simp add: append_slice_def Let_def split: slice.splits prod.splits)

lemma objs_put [simp]: "objs (put \<sigma> a se) = (objs \<sigma>)[a := se]"
  by (simp add: put_def)

lemma arrays_put [simp]: "arrays (put \<sigma> a se) = arrays \<sigma>"
  by (simp add: put_def)

lemma selfError_length:
  assumes rec: "\<And>\<sigma> b \<sigma>' s. rec \<sigma> b = Some (Inr (\<sigma>', s)) \<Longrightarrow> length (objs \<sigma>') = length (objs \<sigma>)"
    and run: "selfError g rec \<sigma> a = Some (Inr (\<sigma>', s))"
  shows "length (objs \<sigma>') = length (objs \<sigma>)"
proof (cases "recursing \<sigma> a")
  case True
  with run show ?thesis by (simp add: selfError_def)
next
  case False
  obtain \<sigma>1 sl where ap: "append_slice g \<sigma> (recurs (objs \<sigma> ! a)) a = (\<sigma>1, sl)"
    by (cases "append_slice g \<sigma> (recurs (objs \<sigma> ! a)) a")
  then have l1: "length (objs \<sigma>1) = length (objs \<sigma>)"
    using append_slice_objs [of g \<sigma> "recurs (objs \<sigma> ! a)" a] by simp
  define \<sigma>2 where "\<sigma>2 = put \<sigma>1 a ((objs \<sigma> ! a)\<lparr>recurs := sl\<rparr>)"
  have l2: "length (objs \<sigma>2) = length (objs \<sigma>)"
    by (simp add: \<sigma>2_def l1)
  from run False ap obtain \<sigma>3 where
    r3: "error_Error rec \<sigma>2 (err (objs \<sigma>2 ! a)) = Some (Inr (\<sigma>3, s))"
    and l3: "length (objs \<sigma>') = length (objs \<sigma>3)"
    by (auto simp: selfError_def Let_def \<sigma>2_def
        split: option.splits sum.splits prod.splits slice.splits nat.splits)
  from r3 have "length (objs \<sigma>3) = length (objs \<sigma>2)"
    by (auto simp: error_Error_def split: error.splits dest: rec)
  with l2 l3 show ?thesis by simp
qed

lemma Error_body_length:
  assumes rec: "\<And>\<sigma> b \<sigma>' s. rec \<sigma> b = Some (Inr (\<sigma>', s)) \<Longrightarrow> length (objs \<sigma>') = length (objs \<sigma>)"
    and run: "Error_body g rec \<sigma> a = Some (Inr (\<sigma>', s))"
  shows "length (objs \<sigma>') = length (objs \<sigma>)"
proof (cases "a < length (objs \<sigma>) \<and> err (objs \<sigma> ! a) \<noteq> ErrNil")
  case False
  with run show ?thesis
    by (auto simp: Error_body_def deref_def split: if_splits)
next
  case True
  with run obtain self where "selfError g rec \<sigma> a = Some (Inr (\<sigma>', self))"
    by (auto simp: Error_body_def deref_def Let_def split: option.splits sum.splits)
  then show ?thesis
    using selfError_length [where rec = rec and g = g and \<sigma> = \<sigma> and a = a] rec by blast
qed

lemma Error_fuel_length:
  "Error_fuel g n \<sigma> a = Some (Inr (\<sigma>', s)) \<Longrightarrow> length (objs \<sigma>') = length (objs \<sigma>)"
proof (induction n arbitrary: \<sigma> a \<sigma>' s)
  case 0
  then show ?case by simp
next
  case (Suc n)
  show ?case
    by (rule Error_body_length [where rec = "Error_fuel g n"]) (use Suc in auto)
qed

text \<open>More fuel does not change a result.\<close>

lemma error_Error_mono:
  assumes "\<And>\<sigma> b r. rec \<sigma> b = Some r \<Longrightarrow> rec' \<sigma> b = Some r"
    and "error_Error rec \<sigma> e = Some r"
  shows "error_Error rec' \<sigma> e = Some r"
  using assms by (auto simp: error_Error_def split: error.splits)

lemma selfError_mono:
  assumes rec: "\<And>\<sigma> b r. rec \<sigma> b = Some r \<Longrightarrow> rec' \<sigma> b = Some r"
    and run: "selfError g rec \<sigma> a = Some r"
  shows "selfError g rec' \<sigma> a = Some r"
proof (cases "recursing \<sigma> a")
  case True
  with run show ?thesis by (simp add: selfError_def)
next
  case False
  obtain \<sigma>1 sl where ap: "append_slice g \<sigma> (recurs (objs \<sigma> ! a)) a = (\<sigma>1, sl)"
    by (cases "append_slice g \<sigma> (recurs (objs \<sigma> ! a)) a")
  define \<sigma>2 where "\<sigma>2 = put \<sigma>1 a ((objs \<sigma> ! a)\<lparr>recurs := sl\<rparr>)"
  from run False ap obtain r2 where
    r2: "error_Error rec \<sigma>2 (err (objs \<sigma>2 ! a)) = Some r2"
    by (auto simp: selfError_def Let_def \<sigma>2_def split: option.splits)
  then have "error_Error rec' \<sigma>2 (err (objs \<sigma>2 ! a)) = Some r2"
    using rec by (auto simp: error_Error_def split: error.splits)
  with r2 run False ap show ?thesis
    by (simp add: selfError_def Let_def \<sigma>2_def)
qed

lemma Error_body_mono:
  assumes rec: "\<And>\<sigma> b r. rec \<sigma> b = Some r \<Longrightarrow> rec' \<sigma> b = Some r"
    and run: "Error_body g rec \<sigma> a = Some r"
  shows "Error_body g rec' \<sigma> a = Some r"
proof (cases "a < length (objs \<sigma>) \<and> err (objs \<sigma> ! a) \<noteq> ErrNil")
  case False
  with run show ?thesis
    by (auto simp: Error_body_def deref_def)
next
  case True
  with run obtain r1 where r1: "selfError g rec \<sigma> a = Some r1"
    by (auto simp: Error_body_def deref_def split: option.splits)
  then have "selfError g rec' \<sigma> a = Some r1"
    using selfError_mono [where rec = rec and rec' = rec'] rec by blast
  with r1 run True show ?thesis
    by (simp add: Error_body_def deref_def)
qed

lemma Error_fuel_Suc:
  "Error_fuel g n \<sigma> a = Some r \<Longrightarrow> Error_fuel g (Suc n) \<sigma> a = Some r"
proof (induction n arbitrary: \<sigma> a r)
  case 0
  then show ?case by simp
next
  case (Suc n)
  have "Error_body g (Error_fuel g (Suc n)) \<sigma> a = Some r"
    by (rule Error_body_mono [where rec = "Error_fuel g n"]) (use Suc in auto)
  then show ?case by simp
qed

lemma Error_fuel_mono:
  "Error_fuel g n \<sigma> a = Some r \<Longrightarrow> Error_fuel g (n + k) \<sigma> a = Some r"
  by (induction k) (auto dest: Error_fuel_Suc)

lemma Error_text_mono:
  "Error_text g n \<sigma> a = Some r \<Longrightarrow> Error_text g (n + k) \<sigma> a = Some r"
  by (auto simp: Error_text_def dest: Error_fuel_mono)

text \<open>\<open>Wrap(New("boom"), "context")\<close>.\<close>

definition Wrap_boom :: "panic + store \<times> addr" where
  "Wrap_boom =
     (case New empty_store ''boom'' of (\<sigma>0, boom) \<Rightarrow> Wrap \<sigma>0 (ErrPtr boom) ''context'' [])"

lemma Wrap_boom_3:
  "(case Wrap_boom of Inl p \<Rightarrow> None | Inr (\<sigma>, w) \<Rightarrow> Error_text go_grow 3 \<sigma> w)
   = Some (Inr ''context'')"
  by code_simp

text \<open>
  C1. The rendering of an error with a cause should be its own text, \<open>"; "\<close> and the
  rendering of the cause, so that \<open>Wrap(New("boom"), "context").Error()\<close> is
  \<open>"context; boom"\<close>. \<open>New("boom").Error()\<close> is \<open>"boom"\<close>, but the wrapped error renders
  as \<open>"context"\<close>, whatever the fuel from 3 on: \<open>Error\<close> builds the text with the cause
  and then overwrites it with the text without.
\<close>

theorem Wrap_boom_Error:
  "(case New empty_store ''boom'' of (\<sigma>0, boom) \<Rightarrow> Error_text go_grow (Suc n) \<sigma>0 boom)
     = Some (Inr ''boom'')
   \<and> (case Wrap_boom of Inl p \<Rightarrow> None | Inr (\<sigma>, w) \<Rightarrow> Error_text go_grow (3 + n) \<sigma> w)
     = Some (Inr ''context'')"
proof
  show "(case New empty_store ''boom'' of (\<sigma>0, boom) \<Rightarrow> Error_text go_grow (Suc n) \<sigma>0 boom)
          = Some (Inr ''boom'')"
    by (simp add: New_def alloc_def empty_store_def Error_text_def Error_body_def deref_def
        argsString_def argsString_loop.simps)
  obtain \<sigma> w where w: "Wrap_boom = Inr (\<sigma>, w)"
    by (simp add: Wrap_boom_def builder_defs empty_store_def)
  from Wrap_boom_3 [unfolded w] have "Error_text go_grow 3 \<sigma> w = Some (Inr ''context'')"
    by simp
  then have "Error_text go_grow (3 + n) \<sigma> w = Some (Inr ''context'')"
    by (rule Error_text_mono)
  then show "(case Wrap_boom of Inl p \<Rightarrow> None | Inr (\<sigma>, w) \<Rightarrow> Error_text go_grow (3 + n) \<sigma> w)
               = Some (Inr ''context'')"
    unfolding w by simp
qed

section \<open>Rendering the attributes\<close>

text \<open>The text of the attributes, in the words of the specification: one segment per pair.\<close>

fun spec_pairs :: "any list \<Rightarrow> (any \<times> any) list" where
  "spec_pairs (k # v # rest) = (k, v) # spec_pairs rest"
| "spec_pairs _ = []"

definition spec_segment :: "any \<times> any \<Rightarrow> string" where
  "spec_segment kv =
     '' ['' @ fmt_v (fst kv) @ ''=''
       @ (case snd kv of AString s \<Rightarrow> [CHR 0x27] @ s @ [CHR 0x27] | v \<Rightarrow> fmt_v v) @ '']''"

lemma spec_pairs_drop:
  "Suc i < length as \<Longrightarrow> spec_pairs (drop i as) = (as ! i, as ! Suc i) # spec_pairs (drop (i + 2) as)"
proof -
  assume a: "Suc i < length as"
  then have "drop i as = as ! i # as ! Suc i # drop (i + 2) as"
    by (simp add: Cons_nth_drop_Suc Suc_lessD)
  then show ?thesis by simp
qed

lemma spec_pairs_short: "\<not> Suc i < length as \<Longrightarrow> spec_pairs (drop i as) = []"
proof -
  assume "\<not> Suc i < length as"
  then have "length (drop i as) \<le> 1" by simp
  then show ?thesis
    by (cases "drop i as" rule: spec_pairs.cases) auto
qed

lemma argsString_loop_pairs:
  "argsString_loop as i sb = sb @ concat (map spec_segment (spec_pairs (drop i as)))"
proof (induction as i sb rule: argsString_loop.induct)
  case (1 as i sb)
  show ?case
  proof (cases "Suc i < length as")
    case True
    then have c: "int i < int (length as) - 1" by simp
    note ih = 1 [OF c]
    show ?thesis
      by (subst argsString_loop.simps, simp only: c if_True, subst ih)
        (simp add: spec_pairs_drop [OF True] spec_segment_def)
  next
    case False
    then have c: "\<not> int i < int (length as) - 1" by simp
    show ?thesis
      by (subst argsString_loop.simps) (simp add: c spec_pairs_short [OF False])
  qed
qed

lemma argsString_pairs: "argsString se = concat (map spec_segment (spec_pairs (args se)))"
  by (simp add: argsString_def argsString_loop_pairs)

text \<open>\<open>New("m").Args("a", 1, "b", 2)\<close>.\<close>

definition New_m_Args :: "panic + store \<times> addr" where
  "New_m_Args =
     (case New empty_store ''m'' of (\<sigma>0, m) \<Rightarrow>
        Args \<sigma>0 m [AString ''a'', AInt 1, AString ''b'', AInt 2])"

text \<open>
  C9. An error without a cause renders as its message followed by one segment
  \<open>" [key=value]"\<close> per attribute pair, a string value in single quotes and any other
  value as \<open>%v\<close> prints it; and \<open>New("m").Args("a", 1, "b", 2).Error()\<close> is
  \<open>"m [a=1] [b=2]"\<close>.
\<close>

theorem Error_without_cause:
  assumes "a < length (objs \<sigma>)" and "err (objs \<sigma> ! a) = ErrNil"
  shows "Error_fuel grow (Suc n) \<sigma> a
          = Some (Inr (\<sigma>, error (objs \<sigma> ! a)
                            @ concat (map spec_segment (spec_pairs (args (objs \<sigma> ! a))))))
       \<and> (case New_m_Args of Inl p \<Rightarrow> None | Inr (\<sigma>1, r) \<Rightarrow> Error_text go_grow 2 \<sigma>1 r)
          = Some (Inr ''m [a=1] [b=2]'')"
proof
  show "Error_fuel grow (Suc n) \<sigma> a
          = Some (Inr (\<sigma>, error (objs \<sigma> ! a)
                            @ concat (map spec_segment (spec_pairs (args (objs \<sigma> ! a))))))"
    using assms by (simp add: Error_body_def deref_def argsString_pairs)
  show "(case New_m_Args of Inl p \<Rightarrow> None | Inr (\<sigma>1, r) \<Rightarrow> Error_text go_grow 2 \<sigma>1 r)
          = Some (Inr ''m [a=1] [b=2]'')"
    by code_simp
qed

theorem Error_without_cause_witness:
  "Error_text go_grow 1
     \<lparr>objs = [\<lparr>error = ''m'', err = ErrNil,
               args = [AString ''a'', AInt 1, AString ''b'', AString ''x y'', AOther ''3.5'', ABool True],
               validArgs = [], recurs = SliceNil, sealed = False, locked = False, cloneWrapped = False\<rparr>],
      arrays = []\<rparr> 0
   = Some (Inr ''m [a=1] [b='x y'] [3.5=true]'')"
  using Error_without_cause [of 0 "\<lparr>objs = [\<lparr>error = ''m'', err = ErrNil,
               args = [AString ''a'', AInt 1, AString ''b'', AString ''x y'', AOther ''3.5'', ABool True],
               validArgs = [], recurs = SliceNil, sealed = False, locked = False, cloneWrapped = False\<rparr>],
      arrays = []\<rparr>" go_grow 0]
  by (simp add: Error_text_def spec_segment_def itoa_def digits.simps)

section \<open>The allow-list of \<open>ValidArgs\<close>\<close>

text \<open>
  Two stores that differ at most in the allow-lists of their objects are equal once every
  allow-list is forgotten.
\<close>

definition forget_validArgs :: "store \<Rightarrow> store" where
  "forget_validArgs \<sigma> = \<sigma>\<lparr>objs := map (\<lambda>se. se\<lparr>validArgs := []\<rparr>) (objs \<sigma>)\<rparr>"

definition forget_result :: "panic + store \<times> 'a \<Rightarrow> panic + store \<times> 'a" where
  "forget_result r = map_sum id (\<lambda>(\<sigma>, x). (forget_validArgs \<sigma>, x)) r"

lemma objs_forget [simp]:
  "objs (forget_validArgs \<sigma>) = map (\<lambda>se. se\<lparr>validArgs := []\<rparr>) (objs \<sigma>)"
  by (simp add: forget_validArgs_def)

lemma arrays_forget [simp]: "arrays (forget_validArgs \<sigma>) = arrays \<sigma>"
  by (simp add: forget_validArgs_def)

lemma recurs_validArgs_swap:
  "(se :: sError)\<lparr>recurs := r, validArgs := v\<rparr> = se\<lparr>validArgs := v, recurs := r\<rparr>"
  by (cases se) simp

lemma forget_put:
  "forget_validArgs (put \<sigma> a se) = put (forget_validArgs \<sigma>) a (se\<lparr>validArgs := []\<rparr>)"
  by (simp add: forget_validArgs_def put_def map_update)

lemma forget_arrays_update [simp]:
  "forget_validArgs (\<sigma>\<lparr>arrays := x\<rparr>) = (forget_validArgs \<sigma>)\<lparr>arrays := x\<rparr>"
  by (simp add: forget_validArgs_def)

lemma recursing_forget:
  "a < length (objs \<sigma>) \<Longrightarrow> recursing (forget_validArgs \<sigma>) a = recursing \<sigma> a"
  by (simp add: recursing_def split: slice.splits)

lemma argsString_forget [simp]: "argsString (se\<lparr>validArgs := v\<rparr>) = argsString se"
  by (simp add: argsString_def)

lemma append_slice_forget:
  "append_slice g (forget_validArgs \<sigma>) s x
     = (forget_validArgs (fst (append_slice g \<sigma> s x)), snd (append_slice g \<sigma> s x))"
  by (simp add: append_slice_def Let_def split: slice.splits prod.splits)

lemma Attrs_forget: "Attrs (forget_validArgs \<sigma>) a = Attrs \<sigma> a"
  by (simp add: Attrs_def deref_def)

lemma Attr_forget: "Attr (forget_validArgs \<sigma>) a key = Attr \<sigma> a key"
  by (simp add: Attr_def Attrs_forget)

lemma Args_forget:
  "Args (forget_validArgs \<sigma>) a as = forget_result (Args \<sigma> a as)"
  by (cases "objs \<sigma> ! a")
    (simp add: forget_result_def builder_defs forget_validArgs_def map_update nth_append
      split: sum.splits)

definition forget_run :: "string result \<Rightarrow> string result" where
  "forget_run = map_option forget_result"

lemma forget_run_simps [simp]:
  "forget_run None = None"
  "forget_run (Some (Inl p)) = Some (Inl p)"
  "forget_run (Some (Inr (\<sigma>, s))) = Some (Inr (forget_validArgs \<sigma>, s))"
  by (simp_all add: forget_run_def forget_result_def)

lemma error_Error_forget:
  assumes rec: "\<And>\<sigma> b. rec (forget_validArgs \<sigma>) b = forget_run (rec \<sigma> b)"
  shows "error_Error rec (forget_validArgs \<sigma>) e = forget_run (error_Error rec \<sigma> e)"
  by (simp add: error_Error_def rec split: error.splits)

lemma selfError_forget:
  assumes rec: "\<And>\<sigma> b. rec (forget_validArgs \<sigma>) b = forget_run (rec \<sigma> b)"
    and len: "\<And>\<sigma> b \<sigma>' s. rec \<sigma> b = Some (Inr (\<sigma>', s)) \<Longrightarrow> length (objs \<sigma>') = length (objs \<sigma>)"
    and a: "a < length (objs \<sigma>)"
  shows "selfError g rec (forget_validArgs \<sigma>) a = forget_run (selfError g rec \<sigma> a)"
proof (cases "recursing \<sigma> a")
  case True
  with a show ?thesis by (simp add: selfError_def recursing_forget)
next
  case False
  obtain \<sigma>1 sl where ap: "append_slice g \<sigma> (recurs (objs \<sigma> ! a)) a = (\<sigma>1, sl)"
    by (cases "append_slice g \<sigma> (recurs (objs \<sigma> ! a)) a")
  then have l1: "length (objs \<sigma>1) = length (objs \<sigma>)"
    using append_slice_objs [of g \<sigma> "recurs (objs \<sigma> ! a)" a] by simp
  define \<sigma>2 where "\<sigma>2 = put \<sigma>1 a ((objs \<sigma> ! a)\<lparr>recurs := sl\<rparr>)"
  have l2: "length (objs \<sigma>2) = length (objs \<sigma>)"
    by (simp add: \<sigma>2_def l1)
  have f2: "put (forget_validArgs \<sigma>1) a ((objs \<sigma> ! a)\<lparr>validArgs := [], recurs := sl\<rparr>)
              = forget_validArgs \<sigma>2"
    by (simp add: \<sigma>2_def forget_put recurs_validArgs_swap)
  have e2: "err (objs (forget_validArgs \<sigma>2) ! a) = err (objs \<sigma>2 ! a)"
    using a l2 by simp
  have e2': "err (objs \<sigma>2 ! a) = err (objs \<sigma> ! a)"
    using a l1 by (simp add: \<sigma>2_def)
  have unf: "selfError g rec (forget_validArgs \<sigma>) a =
      (case error_Error rec (forget_validArgs \<sigma>2) (err (objs \<sigma>2 ! a)) of
         None \<Rightarrow> None
       | Some (Inl p) \<Rightarrow> Some (Inl p)
       | Some (Inr (\<sigma>3, s)) \<Rightarrow>
           (case recurs (objs \<sigma>3 ! a) of
              Slice b (Suc l) \<Rightarrow>
                Some (Inr (put \<sigma>3 a ((objs \<sigma>3 ! a)\<lparr>recurs := Slice b l\<rparr>), s))
            | _ \<Rightarrow> Some (Inl PanicBounds)))"
    using a False ap
    by (simp add: selfError_def [of g rec "forget_validArgs \<sigma>"] recursing_forget
        append_slice_forget f2 e2 e2' Let_def)
  have unf': "selfError g rec \<sigma> a =
      (case error_Error rec \<sigma>2 (err (objs \<sigma>2 ! a)) of
         None \<Rightarrow> None
       | Some (Inl p) \<Rightarrow> Some (Inl p)
       | Some (Inr (\<sigma>3, s)) \<Rightarrow>
           (case recurs (objs \<sigma>3 ! a) of
              Slice b (Suc l) \<Rightarrow>
                Some (Inr (put \<sigma>3 a ((objs \<sigma>3 ! a)\<lparr>recurs := Slice b l\<rparr>), s))
            | _ \<Rightarrow> Some (Inl PanicBounds)))"
    using False ap by (simp add: selfError_def [of g rec \<sigma>] \<sigma>2_def Let_def)
  show ?thesis
  proof (cases "error_Error rec \<sigma>2 (err (objs \<sigma>2 ! a))")
    case None
    then show ?thesis
      by (simp add: unf unf' error_Error_forget [where rec = rec, OF rec])
  next
    case (Some r)
    show ?thesis
    proof (cases r)
      case (Inl p)
      with Some show ?thesis
        by (simp add: unf unf' error_Error_forget [where rec = rec, OF rec])
    next
      case (Inr x)
      obtain \<sigma>3 s where x: "x = (\<sigma>3, s)" by (cases x)
      have "length (objs \<sigma>3) = length (objs \<sigma>2)"
        using Some Inr x len by (auto simp: error_Error_def split: error.splits)
      with l2 a have a3: "a < length (objs \<sigma>3)" by simp
      with Some Inr x show ?thesis
        by (simp add: unf unf' error_Error_forget [where rec = rec, OF rec] forget_put
            recurs_validArgs_swap split: slice.splits nat.splits)
    qed
  qed
qed

lemma Error_body_forget:
  assumes rec: "\<And>\<sigma> b. rec (forget_validArgs \<sigma>) b = forget_run (rec \<sigma> b)"
    and len: "\<And>\<sigma> b \<sigma>' s. rec \<sigma> b = Some (Inr (\<sigma>', s)) \<Longrightarrow> length (objs \<sigma>') = length (objs \<sigma>)"
  shows "Error_body g rec (forget_validArgs \<sigma>) a = forget_run (Error_body g rec \<sigma> a)"
proof (cases "a < length (objs \<sigma>)")
  case False
  then show ?thesis by (simp add: Error_body_def deref_def)
next
  case a: True
  show ?thesis
  proof (cases "err (objs \<sigma> ! a) = ErrNil")
    case True
    with a show ?thesis by (simp add: Error_body_def deref_def)
  next
    case False
    have sf: "selfError g rec (forget_validArgs \<sigma>) a = forget_run (selfError g rec \<sigma> a)"
      using selfError_forget [where rec = rec and g = g and \<sigma> = \<sigma> and a = a] rec len a by blast
    show ?thesis
    proof (cases "selfError g rec \<sigma> a")
      case None
      with a False show ?thesis by (simp add: Error_body_def deref_def sf)
    next
      case (Some r)
      show ?thesis
      proof (cases r)
        case (Inl p)
        with Some a False show ?thesis by (simp add: Error_body_def deref_def sf)
      next
        case (Inr x)
        obtain \<sigma>1 s where x: "x = (\<sigma>1, s)" by (cases x)
        have "length (objs \<sigma>1) = length (objs \<sigma>)"
          using selfError_length [where rec = rec and g = g and \<sigma> = \<sigma> and a = a] len Some Inr x
          by blast
        with a have "a < length (objs \<sigma>1)" by simp
        with Some Inr x a False show ?thesis
          by (simp add: Error_body_def deref_def sf Let_def)
      qed
    qed
  qed
qed

lemma Error_fuel_forget:
  "Error_fuel g n (forget_validArgs \<sigma>) a = forget_run (Error_fuel g n \<sigma> a)"
proof (induction n arbitrary: \<sigma> a)
  case 0
  then show ?case by simp
next
  case (Suc n)
  show ?case
    using Error_body_forget [where rec = "Error_fuel g n" and g = g and \<sigma> = \<sigma> and a = a]
      Suc Error_fuel_length [of g n]
    by auto
qed

text \<open>
  An error whose allow-list is \<open>keys\<close>, with an attribute whose key is \<open>"other"\<close>:
  \<open>se := New("m"); se.Args("other", 1); se.ValidArgs(keys...)\<close>.
\<close>

definition sealed_with :: "string list \<Rightarrow> store" where
  "sealed_with keys =
     (case New empty_store ''m'' of (\<sigma>0, m) \<Rightarrow>
        case Args \<sigma>0 m [AString ''other'', AInt 1] of
          Inl p \<Rightarrow> \<sigma>0
        | Inr (\<sigma>1, r) \<Rightarrow>
            (case ValidArgs \<sigma>1 m keys of Inl p \<Rightarrow> \<sigma>1 | Inr (\<sigma>2, r2) \<Rightarrow> \<sigma>2))"

text \<open>
  C10. No operation reads the allow-list that \<open>ValidArgs\<close> records: on two stores that
  differ only in allow-lists, \<open>Attrs\<close> and \<open>Attr\<close> return the same, \<open>Args\<close> panics or
  succeeds alike and leaves stores that again differ only in allow-lists, and \<open>Error\<close>
  returns the same text (or does not return, alike).
\<close>

theorem validArgs_never_consulted:
  assumes "forget_validArgs \<sigma> = forget_validArgs \<tau>"
  shows "Attrs \<sigma> a = Attrs \<tau> a
       \<and> Attr \<sigma> a key = Attr \<tau> a key
       \<and> forget_result (Args \<sigma> a as) = forget_result (Args \<tau> a as)
       \<and> forget_run (Error_fuel grow n \<sigma> a) = forget_run (Error_fuel grow n \<tau> a)
       \<and> Error_text grow n \<sigma> a = Error_text grow n \<tau> a"
proof -
  have 1: "Attrs \<sigma> a = Attrs \<tau> a"
    using Attrs_forget [of \<sigma> a] Attrs_forget [of \<tau> a] assms by simp
  have 2: "Attr \<sigma> a key = Attr \<tau> a key"
    using Attr_forget [of \<sigma> a key] Attr_forget [of \<tau> a key] assms by simp
  have 3: "forget_result (Args \<sigma> a as) = forget_result (Args \<tau> a as)"
    using Args_forget [of \<sigma> a as] Args_forget [of \<tau> a as] assms by simp
  have 4: "forget_run (Error_fuel grow n \<sigma> a) = forget_run (Error_fuel grow n \<tau> a)"
    using Error_fuel_forget [of grow n \<sigma> a] Error_fuel_forget [of grow n \<tau> a] assms by simp
  have "map_option (map_sum id snd) (forget_run r) = map_option (map_sum id snd) r"
    for r :: "string result"
  proof (cases r)
    case None
    then show ?thesis by simp
  next
    case (Some x)
    then show ?thesis by (cases x) auto
  qed
  with 4 have 5: "Error_text grow n \<sigma> a = Error_text grow n \<tau> a"
    unfolding Error_text_def by metis
  from 1 2 3 4 5 show ?thesis by simp
qed

theorem validArgs_never_consulted_witness:
  "forget_validArgs (sealed_with [''a'']) = forget_validArgs (sealed_with [''b''])
   \<and> validArgs (objs (sealed_with [''a'']) ! 0) = [''a'']
   \<and> validArgs (objs (sealed_with [''b'']) ! 0) = [''b'']
   \<and> Attrs (sealed_with [''a'']) 0 = Attrs (sealed_with [''b'']) 0
   \<and> Attrs (sealed_with [''a'']) 0 = Inr [(''other'', AInt 1)]
   \<and> Attr (sealed_with [''a'']) 0 ''other'' = Attr (sealed_with [''b'']) 0 ''other''
   \<and> forget_result (Args (sealed_with [''a'']) 0 [AString ''k'', ABool True])
       = forget_result (Args (sealed_with [''b'']) 0 [AString ''k'', ABool True])
   \<and> Error_text go_grow 2 (sealed_with [''a'']) 1 = Error_text go_grow 2 (sealed_with [''b'']) 1"
proof -
  have eq: "forget_validArgs (sealed_with [''a'']) = forget_validArgs (sealed_with [''b''])"
    by (simp add: sealed_with_def builder_defs ValidArgs_def empty_store_def
        forget_validArgs_def signed_modulo_int_def)
  have v: "validArgs (objs (sealed_with [''a'']) ! 0) = [''a'']"
    "validArgs (objs (sealed_with [''b'']) ! 0) = [''b'']"
    "Attrs (sealed_with [''a'']) 0 = Inr [(''other'', AInt 1)]"
    by (simp_all add: sealed_with_def builder_defs ValidArgs_def empty_store_def
        signed_modulo_int_def Attrs_def numeral_2_eq_2)
  show ?thesis
    using validArgs_never_consulted [OF eq, of 0 "''other''" "[AString ''k'', ABool True]" go_grow 2]
      validArgs_never_consulted [OF eq, of 1 "''other''" "[AString ''k'', ABool True]" go_grow 2]
      eq v
    by simp
qed

section \<open>Rendering returns\<close>

text \<open>
  A store is well formed when every cause that is a pointer points to an object, and every
  \<open>recurs\<close> slice lies on an array of the store, within its capacity. Go's stores are.
\<close>

definition error_ok :: "store \<Rightarrow> error \<Rightarrow> bool" where
  "error_ok \<sigma> e = (case e of ErrPtr b \<Rightarrow> b < length (objs \<sigma>) | _ \<Rightarrow> True)"

definition slice_ok :: "store \<Rightarrow> slice \<Rightarrow> bool" where
  "slice_ok \<sigma> s =
     (case s of SliceNil \<Rightarrow> True
      | Slice b l \<Rightarrow> b < length (arrays \<sigma>) \<and> l \<le> length (arrays \<sigma> ! b))"

definition wf_store :: "store \<Rightarrow> bool" where
  "wf_store \<sigma> = (\<forall>se \<in> set (objs \<sigma>). error_ok \<sigma> (err se) \<and> slice_ok \<sigma> (recurs se))"

text \<open>
  The measure of the proof. \<open>n0\<close> is the number of arrays when the rendering starts;
  an object whose slice lies on one of these can push at most as often as the array has
  room left, and once more onto a new array. On a new array, which nothing else shares,
  the guard finds the object from then on (\<open>fresh_ok\<close>), and it pushes no more.
\<close>

fun slice_len :: "slice \<Rightarrow> nat" where
  "slice_len SliceNil = 0"
| "slice_len (Slice b l) = l"

definition room :: "nat \<Rightarrow> store \<Rightarrow> slice \<Rightarrow> nat" where
  "room n0 \<sigma> s =
     (case s of SliceNil \<Rightarrow> 1
      | Slice b l \<Rightarrow> if b < n0 then Suc (length (arrays \<sigma> ! b) - l) else 0)"

definition fuel_need :: "nat \<Rightarrow> store \<Rightarrow> nat" where
  "fuel_need n0 \<sigma> = sum_list (map (\<lambda>se. room n0 \<sigma> (recurs se)) (objs \<sigma>))"

definition fresh_ok :: "nat \<Rightarrow> store \<Rightarrow> bool" where
  "fresh_ok n0 \<sigma> =
     (\<forall>x<length (objs \<sigma>). \<forall>b l. recurs (objs \<sigma> ! x) = Slice b l \<longrightarrow> n0 \<le> b \<longrightarrow>
        recursing \<sigma> x \<and>
        (\<forall>y<length (objs \<sigma>). \<forall>l'. recurs (objs \<sigma> ! y) = Slice b l' \<longrightarrow> y = x))"

definition guard_inv :: "nat \<Rightarrow> store \<Rightarrow> bool" where
  "guard_inv n0 \<sigma> = (wf_store \<sigma> \<and> n0 \<le> length (arrays \<sigma>) \<and> fresh_ok n0 \<sigma>)"

text \<open>What rendering leaves as it was: every object but for the array of its guard list.\<close>

definition same_frame :: "store \<Rightarrow> store \<Rightarrow> bool" where
  "same_frame \<sigma> \<sigma>' =
     (length (objs \<sigma>') = length (objs \<sigma>) \<and>
      (\<forall>x<length (objs \<sigma>).
         objs \<sigma>' ! x = (objs \<sigma> ! x)\<lparr>recurs := recurs (objs \<sigma>' ! x)\<rparr> \<and>
         slice_len (recurs (objs \<sigma>' ! x)) = slice_len (recurs (objs \<sigma> ! x))))"

text \<open>The store after \<open>se.recurs = append(se.recurs, se)\<close>.\<close>

definition push :: "(nat \<Rightarrow> nat) \<Rightarrow> store \<Rightarrow> addr \<Rightarrow> store" where
  "push g \<sigma> a =
     (let se = objs \<sigma> ! a; (\<sigma>1, sl) = append_slice g \<sigma> (recurs se) a
      in put \<sigma>1 a (se\<lparr>recurs := sl\<rparr>))"

lemma recursing_loop_iff: "recursing_loop a cells l \<longleftrightarrow> (\<exists>i<l. cells ! i = Some a)"
  by (induction l) (auto simp: less_Suc_eq)

lemma wf_storeD:
  "wf_store \<sigma> \<Longrightarrow> x < length (objs \<sigma>) \<Longrightarrow>
     error_ok \<sigma> (err (objs \<sigma> ! x)) \<and> slice_ok \<sigma> (recurs (objs \<sigma> ! x))"
  by (simp add: wf_store_def)

lemma wf_storeI:
  "(\<And>x. x < length (objs \<sigma>) \<Longrightarrow>
      error_ok \<sigma> (err (objs \<sigma> ! x)) \<and> slice_ok \<sigma> (recurs (objs \<sigma> ! x))) \<Longrightarrow> wf_store \<sigma>"
  by (auto simp: wf_store_def in_set_conv_nth)

text \<open>The two ways a push goes: into the shared array, or onto a new one.\<close>

lemma push_in_place:
  assumes "recurs (objs \<sigma> ! a) = Slice b l" and "l < length (arrays \<sigma> ! b)"
  shows "push g \<sigma> a =
           \<sigma>\<lparr>arrays := (arrays \<sigma>)[b := (arrays \<sigma> ! b)[l := Some a]],
             objs := (objs \<sigma>)[a := (objs \<sigma> ! a)\<lparr>recurs := Slice b (Suc l)\<rparr>]\<rparr>"
  using assms by (simp add: push_def append_slice_def put_def Let_def)

lemma push_realloc:
  assumes "recurs (objs \<sigma> ! a) = SliceNil
           \<or> (\<exists>b. recurs (objs \<sigma> ! a) = Slice b (length (arrays \<sigma> ! b)))"
  shows "\<exists>fresh. push g \<sigma> a =
           \<sigma>\<lparr>arrays := arrays \<sigma> @ [fresh],
             objs := (objs \<sigma>)[a := (objs \<sigma> ! a)\<lparr>recurs :=
                      Slice (length (arrays \<sigma>)) (Suc (slice_len (recurs (objs \<sigma> ! a))))\<rparr>]\<rparr>
         \<and> slice_len (recurs (objs \<sigma> ! a)) < length fresh
         \<and> fresh ! slice_len (recurs (objs \<sigma> ! a)) = Some a"
  using assms
  by (auto simp add: push_def append_slice_def put_def Let_def nth_append)

lemma push_objs:
  "length (objs (push g \<sigma> a)) = length (objs \<sigma>)"
  "x \<noteq> a \<Longrightarrow> objs (push g \<sigma> a) ! x = objs \<sigma> ! x"
  by (simp_all add: push_def Let_def append_slice_def split: prod.splits slice.splits)

lemma push_self:
  assumes "a < length (objs \<sigma>)"
  shows "objs (push g \<sigma> a) ! a = (objs \<sigma> ! a)\<lparr>recurs := recurs (objs (push g \<sigma> a) ! a)\<rparr>"
    and "slice_len (recurs (objs (push g \<sigma> a) ! a)) \<ge> 1"
  using assms
  by (auto simp add: push_def Let_def append_slice_def split: prod.splits slice.splits)


lemma sum_list_map_less:
  fixes f f' :: "'a \<Rightarrow> nat"
  assumes len: "length ys = length xs"
    and le: "\<And>i. i < length xs \<Longrightarrow> f' (ys ! i) \<le> f (xs ! i)"
    and a: "a < length xs" and less: "f' (ys ! a) < f (xs ! a)"
  shows "sum_list (map f' ys) < sum_list (map f xs)"
proof -
  have "sum_list (map f' ys) = (\<Sum>i = 0..<length xs. f' (ys ! i))"
    by (simp add: sum_list_sum_nth len)
  moreover have "sum_list (map f xs) = (\<Sum>i = 0..<length xs. f (xs ! i))"
    by (simp add: sum_list_sum_nth)
  moreover have "(\<Sum>i = 0..<length xs. f' (ys ! i)) < (\<Sum>i = 0..<length xs. f (xs ! i))"
    by (rule sum_strict_mono_ex1) (use le a less in auto)
  ultimately show ?thesis by simp
qed

text \<open>
  What a push does when the guard has not found the error: either the slice lies on an
  array older than \<open>n0\<close> with room left, and the pointer is written there; or a new array
  is made, which no other slice shares.
\<close>

lemma push_shape:
  assumes inv: "guard_inv n0 \<sigma>" and a: "a < length (objs \<sigma>)" and nr: "\<not> recursing \<sigma> a"
  shows "(\<exists>b l. recurs (objs \<sigma> ! a) = Slice b l \<and> b < n0 \<and> l < length (arrays \<sigma> ! b)
            \<and> push g \<sigma> a =
                \<sigma>\<lparr>arrays := (arrays \<sigma>)[b := (arrays \<sigma> ! b)[l := Some a]],
                  objs := (objs \<sigma>)[a := (objs \<sigma> ! a)\<lparr>recurs := Slice b (Suc l)\<rparr>]\<rparr>)
       \<or> (\<exists>fresh. room n0 \<sigma> (recurs (objs \<sigma> ! a)) \<ge> 1
            \<and> push g \<sigma> a =
                \<sigma>\<lparr>arrays := arrays \<sigma> @ [fresh],
                  objs := (objs \<sigma>)[a := (objs \<sigma> ! a)\<lparr>recurs :=
                      Slice (length (arrays \<sigma>)) (Suc (slice_len (recurs (objs \<sigma> ! a))))\<rparr>]\<rparr>
            \<and> slice_len (recurs (objs \<sigma> ! a)) < length fresh
            \<and> fresh ! slice_len (recurs (objs \<sigma> ! a)) = Some a)"
proof (cases "recurs (objs \<sigma> ! a)")
  case SliceNil
  then have "room n0 \<sigma> (recurs (objs \<sigma> ! a)) \<ge> 1" by (simp add: room_def)
  with push_realloc [of \<sigma> a g] SliceNil show ?thesis by auto
next
  case (Slice b l)
  from inv a have ok: "slice_ok \<sigma> (recurs (objs \<sigma> ! a))"
    by (simp add: guard_inv_def wf_storeD)
  with Slice have bl: "b < length (arrays \<sigma>)" "l \<le> length (arrays \<sigma> ! b)"
    by (simp_all add: slice_ok_def)
  from inv a nr Slice have old: "b < n0"
    by (auto simp: guard_inv_def fresh_ok_def not_le [symmetric])
  show ?thesis
  proof (cases "l < length (arrays \<sigma> ! b)")
    case True
    with push_in_place [OF Slice True, of g] Slice old show ?thesis by auto
  next
    case False
    with bl have l: "l = length (arrays \<sigma> ! b)" by simp
    have "room n0 \<sigma> (recurs (objs \<sigma> ! a)) \<ge> 1"
      using Slice old by (simp add: room_def)
    moreover have "recurs (objs \<sigma> ! a) = SliceNil
           \<or> (\<exists>b. recurs (objs \<sigma> ! a) = Slice b (length (arrays \<sigma> ! b)))"
      using Slice l by simp
    ultimately show ?thesis
      using push_realloc [of \<sigma> a g] by blast
  qed
qed

lemma room_less_n0:
  assumes "\<And>c. c < n0 \<Longrightarrow> length (arrays \<sigma>' ! c) = length (arrays \<sigma> ! c)"
  shows "room n0 \<sigma>' s = room n0 \<sigma> s"
  using assms by (simp add: room_def split: slice.splits)

lemma push_fuel_need:
  assumes inv: "guard_inv n0 \<sigma>" and a: "a < length (objs \<sigma>)" and nr: "\<not> recursing \<sigma> a"
  shows "fuel_need n0 (push g \<sigma> a) < fuel_need n0 \<sigma>"
proof -
  from inv have n0: "n0 \<le> length (arrays \<sigma>)" by (simp add: guard_inv_def)
  from push_shape [OF inv a nr, of g] show ?thesis
  proof (elim disjE exE conjE)
    fix b l
    assume s: "recurs (objs \<sigma> ! a) = Slice b l" and b: "b < n0"
      and l: "l < length (arrays \<sigma> ! b)"
      and p: "push g \<sigma> a =
                \<sigma>\<lparr>arrays := (arrays \<sigma>)[b := (arrays \<sigma> ! b)[l := Some a]],
                  objs := (objs \<sigma>)[a := (objs \<sigma> ! a)\<lparr>recurs := Slice b (Suc l)\<rparr>]\<rparr>"
    have same: "room n0 (push g \<sigma> a) s = room n0 \<sigma> s" for s
      by (rule room_less_n0) (use n0 b in \<open>auto simp: p nth_list_update\<close>)
    show ?thesis
      unfolding fuel_need_def
    proof (rule sum_list_map_less [where a = a])
      show "length (objs (push g \<sigma> a)) = length (objs \<sigma>)" by (simp add: p)
      show "a < length (objs \<sigma>)" by (rule a)
      show "room n0 (push g \<sigma> a) (recurs (objs (push g \<sigma> a) ! a))
              < room n0 \<sigma> (recurs (objs \<sigma> ! a))"
        using a b l s by (simp add: same) (auto simp: p room_def)
      show "room n0 (push g \<sigma> a) (recurs (objs (push g \<sigma> a) ! i))
              \<le> room n0 \<sigma> (recurs (objs \<sigma> ! i))" if "i < length (objs \<sigma>)" for i
        using that a b l s by (simp add: same) (auto simp: p room_def nth_list_update)
    qed
  next
    fix fresh
    assume r: "1 \<le> room n0 \<sigma> (recurs (objs \<sigma> ! a))"
      and p: "push g \<sigma> a =
                \<sigma>\<lparr>arrays := arrays \<sigma> @ [fresh],
                  objs := (objs \<sigma>)[a := (objs \<sigma> ! a)\<lparr>recurs :=
                      Slice (length (arrays \<sigma>)) (Suc (slice_len (recurs (objs \<sigma> ! a))))\<rparr>]\<rparr>"
    have same: "room n0 (push g \<sigma> a) s = room n0 \<sigma> s" for s
      by (rule room_less_n0) (use n0 in \<open>simp add: p nth_append\<close>)
    show ?thesis
      unfolding fuel_need_def
    proof (rule sum_list_map_less [where a = a])
      show "length (objs (push g \<sigma> a)) = length (objs \<sigma>)" by (simp add: p)
      show "a < length (objs \<sigma>)" by (rule a)
      show "room n0 (push g \<sigma> a) (recurs (objs (push g \<sigma> a) ! a))
              < room n0 \<sigma> (recurs (objs \<sigma> ! a))"
        using a r n0 by (simp add: same) (auto simp: p room_def)
      show "room n0 (push g \<sigma> a) (recurs (objs (push g \<sigma> a) ! i))
              \<le> room n0 \<sigma> (recurs (objs \<sigma> ! i))" if "i < length (objs \<sigma>)" for i
        using that a r n0 by (simp add: same) (auto simp: p room_def nth_list_update)
    qed
  qed
qed

lemma recursing_iff:
  "recursing \<sigma> x \<longleftrightarrow>
     (\<exists>b l. recurs (objs \<sigma> ! x) = Slice b l \<and> (\<exists>i<l. arrays \<sigma> ! b ! i = Some x))"
  by (auto simp: recursing_def recursing_loop_iff split: slice.splits)

lemma fresh_okD:
  assumes "fresh_ok n0 \<sigma>" and "x < length (objs \<sigma>)"
    and "recurs (objs \<sigma> ! x) = Slice b l" and "n0 \<le> b"
  shows "recursing \<sigma> x"
    and "\<And>y l'. y < length (objs \<sigma>) \<Longrightarrow> recurs (objs \<sigma> ! y) = Slice b l' \<Longrightarrow> y = x"
  using assms unfolding fresh_ok_def by blast+

lemma error_ok_frame:
  "length (objs \<sigma>') = length (objs \<sigma>) \<Longrightarrow> error_ok \<sigma>' e = error_ok \<sigma> e"
  by (simp add: error_ok_def split: error.splits)

lemma slice_ok_in_place:
  assumes "slice_ok \<sigma> s"
  shows "slice_ok (\<sigma>\<lparr>arrays := (arrays \<sigma>)[b := (arrays \<sigma> ! b)[l := v]], objs := os\<rparr>) s"
proof (cases s)
  case SliceNil
  then show ?thesis by (simp add: slice_ok_def)
next
  case (Slice c k)
  with assms have "c < length (arrays \<sigma>)" "k \<le> length (arrays \<sigma> ! c)"
    by (simp_all add: slice_ok_def)
  with Slice show ?thesis
    by (cases "c = b") (simp_all add: slice_ok_def)
qed

lemma slice_ok_append:
  assumes "slice_ok \<sigma> s"
  shows "slice_ok (\<sigma>\<lparr>arrays := arrays \<sigma> @ [fresh], objs := os\<rparr>) s"
proof (cases s)
  case SliceNil
  then show ?thesis by (simp add: slice_ok_def)
next
  case (Slice c k)
  with assms have "c < length (arrays \<sigma>)" "k \<le> length (arrays \<sigma> ! c)"
    by (simp_all add: slice_ok_def)
  with Slice show ?thesis
    by (simp add: slice_ok_def nth_append)
qed

lemma push_guard_inv:
  assumes inv: "guard_inv n0 \<sigma>" and a: "a < length (objs \<sigma>)" and nr: "\<not> recursing \<sigma> a"
  shows "guard_inv n0 (push g \<sigma> a)"
proof -
  from inv have wf: "wf_store \<sigma>" and n0: "n0 \<le> length (arrays \<sigma>)" and fr: "fresh_ok n0 \<sigma>"
    by (simp_all add: guard_inv_def)
  have ok: "error_ok \<sigma> (err (objs \<sigma> ! x))" "slice_ok \<sigma> (recurs (objs \<sigma> ! x))"
    if "x < length (objs \<sigma>)" for x
    using wf_storeD [OF wf that] by simp_all
  from push_shape [OF inv a nr, of g] show ?thesis
  proof (elim disjE exE conjE)
    fix b l
    assume s: "recurs (objs \<sigma> ! a) = Slice b l" and b: "b < n0"
      and l: "l < length (arrays \<sigma> ! b)"
      and p: "push g \<sigma> a =
                \<sigma>\<lparr>arrays := (arrays \<sigma>)[b := (arrays \<sigma> ! b)[l := Some a]],
                  objs := (objs \<sigma>)[a := (objs \<sigma> ! a)\<lparr>recurs := Slice b (Suc l)\<rparr>]\<rparr>"
    have wf': "wf_store (push g \<sigma> a)"
    proof (rule wf_storeI)
      fix x assume "x < length (objs (push g \<sigma> a))"
      then have x: "x < length (objs \<sigma>)" by (simp add: p)
      have "length (objs (push g \<sigma> a)) = length (objs \<sigma>)" by (simp add: p)
      moreover have "err (objs (push g \<sigma> a) ! x) = err (objs \<sigma> ! x)"
        using x by (cases "x = a") (simp_all add: p)
      ultimately have e: "error_ok (push g \<sigma> a) (err (objs (push g \<sigma> a) ! x))"
        using ok(1) [OF x] error_ok_frame [of "push g \<sigma> a" \<sigma>] by simp
      have "slice_ok (push g \<sigma> a) (recurs (objs (push g \<sigma> a) ! x))"
      proof (cases "x = a")
        case True
        from ok(2) [OF a] s have "b < length (arrays \<sigma>)" by (simp add: slice_ok_def)
        with True a l show ?thesis by (simp add: p slice_ok_def)
      next
        case False
        then have "recurs (objs (push g \<sigma> a) ! x) = recurs (objs \<sigma> ! x)" by (simp add: p)
        with ok(2) [OF x] show ?thesis
          by (simp add: p slice_ok_in_place)
      qed
      with e show "error_ok (push g \<sigma> a) (err (objs (push g \<sigma> a) ! x))
              \<and> slice_ok (push g \<sigma> a) (recurs (objs (push g \<sigma> a) ! x))" by simp
    qed
    have fr': "fresh_ok n0 (push g \<sigma> a)"
      unfolding fresh_ok_def
    proof (intro allI impI)
      fix x bx lx
      assume x': "x < length (objs (push g \<sigma> a))"
        and sx': "recurs (objs (push g \<sigma> a) ! x) = Slice bx lx" and new: "n0 \<le> bx"
      from x' have x: "x < length (objs \<sigma>)" by (simp add: p)
      from sx' new b a have xa: "x \<noteq> a" by (auto simp: p)
      with sx' have sx: "recurs (objs \<sigma> ! x) = Slice bx lx" by (simp add: p)
      note rx = fresh_okD(1) [OF fr x sx new] and uq = fresh_okD(2) [OF fr x sx new]
      from rx sx obtain i where i: "i < lx" "arrays \<sigma> ! bx ! i = Some x"
        by (auto simp: recursing_iff)
      from new b have "bx \<noteq> b" by simp
      with i have "arrays (push g \<sigma> a) ! bx ! i = Some x" by (simp add: p)
      with i sx' have "recursing (push g \<sigma> a) x"
        unfolding recursing_iff by blast
      moreover have "y = x" if y: "y < length (objs (push g \<sigma> a))"
        and sy: "recurs (objs (push g \<sigma> a) ! y) = Slice bx l'" for y l'
      proof -
        from y have y0: "y < length (objs \<sigma>)" by (simp add: p)
        from sy new b a have "y \<noteq> a" by (auto simp: p)
        with sy have "recurs (objs \<sigma> ! y) = Slice bx l'" by (simp add: p)
        with y0 show ?thesis by (rule uq)
      qed
      ultimately show "recursing (push g \<sigma> a) x \<and> (\<forall>y<length (objs (push g \<sigma> a)). \<forall>l'.
          recurs (objs (push g \<sigma> a) ! y) = Slice bx l' \<longrightarrow> y = x)" by simp
    qed
    from wf' fr' n0 show ?thesis by (simp add: guard_inv_def p)
  next
    fix fresh
    assume p: "push g \<sigma> a =
                \<sigma>\<lparr>arrays := arrays \<sigma> @ [fresh],
                  objs := (objs \<sigma>)[a := (objs \<sigma> ! a)\<lparr>recurs :=
                      Slice (length (arrays \<sigma>)) (Suc (slice_len (recurs (objs \<sigma> ! a))))\<rparr>]\<rparr>"
      and fl: "slice_len (recurs (objs \<sigma> ! a)) < length fresh"
      and fa: "fresh ! slice_len (recurs (objs \<sigma> ! a)) = Some a"
    have wf': "wf_store (push g \<sigma> a)"
    proof (rule wf_storeI)
      fix x assume "x < length (objs (push g \<sigma> a))"
      then have x: "x < length (objs \<sigma>)" by (simp add: p)
      have "length (objs (push g \<sigma> a)) = length (objs \<sigma>)" by (simp add: p)
      moreover have "err (objs (push g \<sigma> a) ! x) = err (objs \<sigma> ! x)"
        using x by (cases "x = a") (simp_all add: p)
      ultimately have e: "error_ok (push g \<sigma> a) (err (objs (push g \<sigma> a) ! x))"
        using ok(1) [OF x] error_ok_frame [of "push g \<sigma> a" \<sigma>] by simp
      have "slice_ok (push g \<sigma> a) (recurs (objs (push g \<sigma> a) ! x))"
      proof (cases "x = a")
        case True
        with a fl show ?thesis by (simp add: p slice_ok_def)
      next
        case False
        then have "recurs (objs (push g \<sigma> a) ! x) = recurs (objs \<sigma> ! x)" by (simp add: p)
        with ok(2) [OF x] show ?thesis
          by (simp add: p slice_ok_append)
      qed
      with e show "error_ok (push g \<sigma> a) (err (objs (push g \<sigma> a) ! x))
              \<and> slice_ok (push g \<sigma> a) (recurs (objs (push g \<sigma> a) ! x))" by simp
    qed
    have fr': "fresh_ok n0 (push g \<sigma> a)"
      unfolding fresh_ok_def
    proof (intro allI impI)
      fix x bx lx
      assume x': "x < length (objs (push g \<sigma> a))"
        and sx': "recurs (objs (push g \<sigma> a) ! x) = Slice bx lx" and new: "n0 \<le> bx"
      from x' have x: "x < length (objs \<sigma>)" by (simp add: p)
      show "recursing (push g \<sigma> a) x \<and> (\<forall>y<length (objs (push g \<sigma> a)). \<forall>l'.
          recurs (objs (push g \<sigma> a) ! y) = Slice bx l' \<longrightarrow> y = x)"
      proof (cases "x = a")
        case True
        with sx' a have bx: "bx = length (arrays \<sigma>)"
          and lx: "lx = Suc (slice_len (recurs (objs \<sigma> ! a)))" by (simp_all add: p)
        have "recursing (push g \<sigma> a) x"
          unfolding recursing_iff using True a fa by (simp add: p) blast
        moreover have "y = x" if "y < length (objs \<sigma>)"
          and "recurs (objs (push g \<sigma> a) ! y) = Slice bx l'" for y l'
        proof (rule ccontr)
          assume "y \<noteq> x"
          with that True have "recurs (objs \<sigma> ! y) = Slice (length (arrays \<sigma>)) l'"
            by (simp add: p bx)
          with ok(2) [OF that(1)] show False by (simp add: slice_ok_def)
        qed
        ultimately show ?thesis by (simp add: p)
      next
        case False
        with sx' have sx: "recurs (objs \<sigma> ! x) = Slice bx lx" by (simp add: p)
        from ok(2) [OF x] sx have bxl: "bx < length (arrays \<sigma>)" by (simp add: slice_ok_def)
        note rx = fresh_okD(1) [OF fr x sx new] and uq = fresh_okD(2) [OF fr x sx new]
        from rx sx obtain i where i: "i < lx" "arrays \<sigma> ! bx ! i = Some x"
          by (auto simp: recursing_iff)
        with bxl have "arrays (push g \<sigma> a) ! bx ! i = Some x" by (simp add: p nth_append)
        with i sx' have "recursing (push g \<sigma> a) x"
          unfolding recursing_iff by blast
        moreover have "y = x" if y: "y < length (objs (push g \<sigma> a))"
          and sy: "recurs (objs (push g \<sigma> a) ! y) = Slice bx l'" for y l'
        proof -
          from y have y0: "y < length (objs \<sigma>)" by (simp add: p)
          from sy bxl a have "y \<noteq> a" by (auto simp: p)
          with sy have "recurs (objs \<sigma> ! y) = Slice bx l'" by (simp add: p)
          with y0 show ?thesis by (rule uq)
        qed
        ultimately show ?thesis by simp
      qed
    qed
    from wf' fr' n0 show ?thesis by (simp add: guard_inv_def p)
  qed
qed

lemma selfError_push:
  "\<not> recursing \<sigma> a \<Longrightarrow>
   selfError g rec \<sigma> a =
     (case error_Error rec (push g \<sigma> a) (err (objs (push g \<sigma> a) ! a)) of
        None \<Rightarrow> None
      | Some (Inl p) \<Rightarrow> Some (Inl p)
      | Some (Inr (\<sigma>3, s)) \<Rightarrow>
          (case recurs (objs \<sigma>3 ! a) of
             Slice b (Suc l) \<Rightarrow>
               Some (Inr (put \<sigma>3 a ((objs \<sigma>3 ! a)\<lparr>recurs := Slice b l\<rparr>), s))
           | _ \<Rightarrow> Some (Inl PanicBounds)))"
  by (simp add: selfError_def push_def Let_def split: prod.splits)

lemma push_pushed:
  assumes inv: "guard_inv n0 \<sigma>" and a: "a < length (objs \<sigma>)" and nr: "\<not> recursing \<sigma> a"
  shows "\<exists>r2. objs (push g \<sigma> a) ! a = (objs \<sigma> ! a)\<lparr>recurs := r2\<rparr>
           \<and> slice_len r2 = Suc (slice_len (recurs (objs \<sigma> ! a)))"
  using push_shape [OF inv a nr, of g]
proof (elim disjE exE conjE)
  fix b l
  assume "recurs (objs \<sigma> ! a) = Slice b l"
    and "push g \<sigma> a =
           \<sigma>\<lparr>arrays := (arrays \<sigma>)[b := (arrays \<sigma> ! b)[l := Some a]],
             objs := (objs \<sigma>)[a := (objs \<sigma> ! a)\<lparr>recurs := Slice b (Suc l)\<rparr>]\<rparr>"
  with a show ?thesis
    by (intro exI [of _ "Slice b (Suc l)"]) simp
next
  fix fresh
  assume "push g \<sigma> a =
            \<sigma>\<lparr>arrays := arrays \<sigma> @ [fresh],
              objs := (objs \<sigma>)[a := (objs \<sigma> ! a)\<lparr>recurs :=
                  Slice (length (arrays \<sigma>)) (Suc (slice_len (recurs (objs \<sigma> ! a))))\<rparr>]\<rparr>"
  with a show ?thesis
    by (intro exI [of _ "Slice (length (arrays \<sigma>)) (Suc (slice_len (recurs (objs \<sigma> ! a))))"])
      simp
qed

lemma same_frame_refl: "same_frame \<sigma> \<sigma>"
  by (simp add: same_frame_def)

text \<open>Taking the pointer off again, after the cause has been rendered in \<open>\<sigma>3\<close>.\<close>

lemma pop_frame:
  assumes a: "a < length (objs \<sigma>)"
    and len2: "length (objs \<sigma>2) = length (objs \<sigma>)"
    and other: "\<And>x. x \<noteq> a \<Longrightarrow> objs \<sigma>2 ! x = objs \<sigma> ! x"
    and self: "objs \<sigma>2 ! a = (objs \<sigma> ! a)\<lparr>recurs := r2\<rparr>"
    and r2: "slice_len r2 = Suc (slice_len (recurs (objs \<sigma> ! a)))"
    and fr: "same_frame \<sigma>2 \<sigma>3" and wf: "wf_store \<sigma>3"
  shows "\<exists>b. recurs (objs \<sigma>3 ! a) = Slice b (Suc (slice_len (recurs (objs \<sigma> ! a))))
           \<and> same_frame \<sigma>
                (put \<sigma>3 a ((objs \<sigma>3 ! a)\<lparr>recurs := Slice b (slice_len (recurs (objs \<sigma> ! a)))\<rparr>))
           \<and> wf_store
                (put \<sigma>3 a ((objs \<sigma>3 ! a)\<lparr>recurs := Slice b (slice_len (recurs (objs \<sigma> ! a)))\<rparr>))
           \<and> error (objs \<sigma>3 ! a) = error (objs \<sigma> ! a)
           \<and> args (objs \<sigma>3 ! a) = args (objs \<sigma> ! a)"
proof -
  define k where "k = slice_len (recurs (objs \<sigma> ! a))"
  from fr have len3: "length (objs \<sigma>3) = length (objs \<sigma>)"
    and f3: "\<And>x. x < length (objs \<sigma>) \<Longrightarrow>
        objs \<sigma>3 ! x = (objs \<sigma>2 ! x)\<lparr>recurs := recurs (objs \<sigma>3 ! x)\<rparr>"
    and l3: "\<And>x. x < length (objs \<sigma>) \<Longrightarrow>
        slice_len (recurs (objs \<sigma>3 ! x)) = slice_len (recurs (objs \<sigma>2 ! x))"
    by (simp_all add: same_frame_def len2)
  from l3 [OF a] self r2 have "slice_len (recurs (objs \<sigma>3 ! a)) = Suc k"
    by (simp add: k_def)
  then obtain b where b: "recurs (objs \<sigma>3 ! a) = Slice b (Suc k)"
    by (cases "recurs (objs \<sigma>3 ! a)") auto
  define \<sigma>4 where "\<sigma>4 = put \<sigma>3 a ((objs \<sigma>3 ! a)\<lparr>recurs := Slice b k\<rparr>)"
  have a3: "objs \<sigma>3 ! a = (objs \<sigma> ! a)\<lparr>recurs := Slice b (Suc k)\<rparr>"
    using f3 [OF a] self b by simp
  have o4: "objs \<sigma>4 = (objs \<sigma>3)[a := (objs \<sigma> ! a)\<lparr>recurs := Slice b k\<rparr>]"
    by (simp add: \<sigma>4_def a3)
  have ar4: "arrays \<sigma>4 = arrays \<sigma>3" by (simp add: \<sigma>4_def)
  have sf: "same_frame \<sigma> \<sigma>4"
    unfolding same_frame_def
  proof (intro conjI allI impI)
    show "length (objs \<sigma>4) = length (objs \<sigma>)" by (simp add: o4 len3)
    fix x assume x: "x < length (objs \<sigma>)"
    show "objs \<sigma>4 ! x = (objs \<sigma> ! x)\<lparr>recurs := recurs (objs \<sigma>4 ! x)\<rparr>"
    proof (cases "x = a")
      case True
      with a len3 show ?thesis by (simp add: o4)
    next
      case False
      with f3 [OF x] other [OF False] show ?thesis by (simp add: o4)
    qed
    show "slice_len (recurs (objs \<sigma>4 ! x)) = slice_len (recurs (objs \<sigma> ! x))"
    proof (cases "x = a")
      case True
      with a len3 show ?thesis by (simp add: o4 k_def)
    next
      case False
      with l3 [OF x] other [OF False] show ?thesis by (simp add: o4)
    qed
  qed
  have wf4: "wf_store \<sigma>4"
  proof (rule wf_storeI)
    fix x assume "x < length (objs \<sigma>4)"
    then have x: "x < length (objs \<sigma>3)" by (simp add: o4)
    note okx = wf_storeD [OF wf x]
    have oka: "slice_ok \<sigma>3 (Slice b (Suc k))"
      using wf_storeD [OF wf, of a] a len3 b by simp
    have "error_ok \<sigma>4 (err (objs \<sigma>4 ! x))"
    proof (cases "x = a")
      case True
      with okx x a3 show ?thesis
        using error_ok_frame [of \<sigma>4 \<sigma>3] by (simp add: o4)
    next
      case False
      with okx show ?thesis
        using error_ok_frame [of \<sigma>4 \<sigma>3] by (simp add: o4)
    qed
    moreover have "slice_ok \<sigma>4 (recurs (objs \<sigma>4 ! x))"
    proof (cases "x = a")
      case True
      with oka x show ?thesis by (simp add: o4 slice_ok_def ar4)
    next
      case False
      with okx show ?thesis by (simp add: o4 slice_ok_def ar4 split: slice.splits)
    qed
    ultimately show "error_ok \<sigma>4 (err (objs \<sigma>4 ! x)) \<and> slice_ok \<sigma>4 (recurs (objs \<sigma>4 ! x))"
      by simp
  qed
  from b sf wf4 a3 show ?thesis
    unfolding \<sigma>4_def k_def by auto
qed

lemma Error_fuel_returns:
  assumes "guard_inv n0 \<sigma>" and "a < length (objs \<sigma>)" and "fuel_need n0 \<sigma> < n"
  shows "\<exists>\<sigma>'. Error_fuel g n \<sigma> a
               = Some (Inr (\<sigma>', error (objs \<sigma> ! a) @ argsString (objs \<sigma> ! a)))
            \<and> same_frame \<sigma> \<sigma>' \<and> wf_store \<sigma>'"
  using assms
proof (induction n arbitrary: \<sigma> a)
  case 0
  then show ?case by simp
next
  case (Suc n)
  note inv = Suc.prems(1) and a = Suc.prems(2)
  from inv have wf: "wf_store \<sigma>" by (simp add: guard_inv_def)
  let ?se = "objs \<sigma> ! a"
  let ?msg = "error ?se @ argsString ?se"
  show ?case
  proof (cases "err ?se = ErrNil \<or> recursing \<sigma> a")
    case True
    then have "Error_fuel g (Suc n) \<sigma> a = Some (Inr (\<sigma>, ?msg))"
      using a by (auto simp: Error_body_def deref_def selfError_def Let_def)
    with wf show ?thesis by (auto simp: same_frame_refl)
  next
    case False
    then have ne: "err ?se \<noteq> ErrNil" and nr: "\<not> recursing \<sigma> a" by simp_all
    define \<sigma>2 where "\<sigma>2 = push g \<sigma> a"
    have inv2: "guard_inv n0 \<sigma>2"
      unfolding \<sigma>2_def by (rule push_guard_inv [OF inv a nr])
    have "fuel_need n0 \<sigma>2 < fuel_need n0 \<sigma>"
      unfolding \<sigma>2_def by (rule push_fuel_need [OF inv a nr])
    with Suc.prems(3) have fuel2: "fuel_need n0 \<sigma>2 < n" by simp
    have len2: "length (objs \<sigma>2) = length (objs \<sigma>)"
      and other: "\<And>x. x \<noteq> a \<Longrightarrow> objs \<sigma>2 ! x = objs \<sigma> ! x"
      by (simp_all add: \<sigma>2_def push_objs)
    from push_pushed [OF inv a nr, of g] obtain r2 where
      self: "objs \<sigma>2 ! a = ?se\<lparr>recurs := r2\<rparr>"
      and r2: "slice_len r2 = Suc (slice_len (recurs ?se))"
      by (auto simp: \<sigma>2_def)
    from self have err2: "err (objs \<sigma>2 ! a) = err ?se" by simp
    from inv2 have wf2: "wf_store \<sigma>2" by (simp add: guard_inv_def)
    have "\<exists>\<sigma>3 s. error_Error (Error_fuel g n) \<sigma>2 (err ?se) = Some (Inr (\<sigma>3, s))
            \<and> same_frame \<sigma>2 \<sigma>3 \<and> wf_store \<sigma>3"
    proof (cases "err ?se")
      case ErrNil
      with ne show ?thesis by simp
    next
      case (ErrString m)
      with wf2 show ?thesis by (auto simp: error_Error_def same_frame_refl)
    next
      case (ErrPtr b)
      from wf_storeD [OF wf a] ErrPtr have "b < length (objs \<sigma>)" by (simp add: error_ok_def)
      then have "b < length (objs \<sigma>2)" by (simp add: len2)
      from Suc.IH [OF inv2 this fuel2] ErrPtr show ?thesis
        by (auto simp: error_Error_def)
    qed
    then obtain \<sigma>3 s where
      run: "error_Error (Error_fuel g n) \<sigma>2 (err ?se) = Some (Inr (\<sigma>3, s))"
      and fr: "same_frame \<sigma>2 \<sigma>3" and wf3: "wf_store \<sigma>3" by blast
    from pop_frame [OF a len2 other self r2 fr wf3] obtain b where
      b: "recurs (objs \<sigma>3 ! a) = Slice b (Suc (slice_len (recurs ?se)))"
      and sf: "same_frame \<sigma> (put \<sigma>3 a ((objs \<sigma>3 ! a)\<lparr>recurs := Slice b (slice_len (recurs ?se))\<rparr>))"
      and wf4: "wf_store (put \<sigma>3 a ((objs \<sigma>3 ! a)\<lparr>recurs := Slice b (slice_len (recurs ?se))\<rparr>))"
      and e3: "error (objs \<sigma>3 ! a) = error ?se" and a3: "args (objs \<sigma>3 ! a) = args ?se"
      by blast
    from fr have len3: "length (objs \<sigma>3) = length (objs \<sigma>)"
      by (simp add: same_frame_def len2)
    have se: "selfError g (Error_fuel g n) \<sigma> a
        = Some (Inr (put \<sigma>3 a ((objs \<sigma>3 ! a)\<lparr>recurs := Slice b (slice_len (recurs ?se))\<rparr>), s))"
      using run b by (simp add: selfError_push [OF nr] \<sigma>2_def [symmetric] err2)
    have "Error_fuel g (Suc n) \<sigma> a
        = Some (Inr (put \<sigma>3 a ((objs \<sigma>3 ! a)\<lparr>recurs := Slice b (slice_len (recurs ?se))\<rparr>), ?msg))"
      using a ne len3 by (simp add: Error_body_def deref_def se Let_def e3 a3 argsString_def)
    with sf wf4 show ?thesis by blast
  qed
qed

lemma wf_guard_inv: "wf_store \<sigma> \<Longrightarrow> guard_inv (length (arrays \<sigma>)) \<sigma>"
  unfolding guard_inv_def fresh_ok_def
  by (auto dest!: wf_storeD simp: slice_ok_def)

text \<open>Every store that the constructors and builders make is well formed.\<close>

lemma wf_empty_store: "wf_store empty_store"
  by (simp add: wf_store_def empty_store_def)

lemma error_ok_mono:
  "error_ok \<sigma> e \<Longrightarrow> length (objs \<sigma>) \<le> length (objs \<sigma>') \<Longrightarrow> error_ok \<sigma>' e"
  by (auto simp: error_ok_def split: error.splits)

lemma slice_ok_arrays: "slice_ok \<sigma> s \<Longrightarrow> arrays \<sigma>' = arrays \<sigma> \<Longrightarrow> slice_ok \<sigma>' s"
  by (cases s) (simp_all add: slice_ok_def)

lemma wf_alloc:
  assumes "wf_store \<sigma>" and "error_ok \<sigma> (err se) \<or> err se = ErrPtr (length (objs \<sigma>))"
    and "slice_ok \<sigma> (recurs se)"
  shows "wf_store (fst (alloc \<sigma> se))"
proof (rule wf_storeI)
  fix x assume x: "x < length (objs (fst (alloc \<sigma> se)))"
  let ?\<sigma> = "fst (alloc \<sigma> se)"
  have ar: "arrays ?\<sigma> = arrays \<sigma>" and len: "length (objs \<sigma>) \<le> length (objs ?\<sigma>)"
    by (simp_all add: alloc_def)
  show "error_ok ?\<sigma> (err (objs ?\<sigma> ! x)) \<and> slice_ok ?\<sigma> (recurs (objs ?\<sigma> ! x))"
  proof (cases "x < length (objs \<sigma>)")
    case True
    then have "objs ?\<sigma> ! x = objs \<sigma> ! x" by (simp add: alloc_def nth_append)
    with wf_storeD [OF assms(1) True] ar len show ?thesis
      by (auto intro: error_ok_mono slice_ok_arrays)
  next
    case False
    with x have "objs ?\<sigma> ! x = se" by (simp add: alloc_def nth_append)
    moreover from assms(2) have "error_ok ?\<sigma> (err se)"
      by (auto simp: error_ok_def alloc_def split: error.splits)
    ultimately show ?thesis using assms(3) ar by (auto intro: slice_ok_arrays)
  qed
qed

lemma wf_put:
  assumes "wf_store \<sigma>" and "error_ok \<sigma> (err se)" and "slice_ok \<sigma> (recurs se)"
  shows "wf_store (put \<sigma> a se)"
proof (rule wf_storeI)
  fix x assume x: "x < length (objs (put \<sigma> a se))"
  then have x0: "x < length (objs \<sigma>)" by simp
  have ar: "arrays (put \<sigma> a se) = arrays \<sigma>"
    and len: "length (objs \<sigma>) \<le> length (objs (put \<sigma> a se))" by simp_all
  show "error_ok (put \<sigma> a se) (err (objs (put \<sigma> a se) ! x))
          \<and> slice_ok (put \<sigma> a se) (recurs (objs (put \<sigma> a se) ! x))"
  proof (cases "x = a")
    case True
    with x0 assms(2,3) ar len show ?thesis
      by (auto intro: error_ok_mono slice_ok_arrays)
  next
    case False
    with wf_storeD [OF assms(1) x0] ar len show ?thesis
      by (auto intro: error_ok_mono slice_ok_arrays)
  qed
qed

lemma wf_New: "wf_store \<sigma> \<Longrightarrow> wf_store (fst (New \<sigma> msg))"
  unfolding New_def by (rule wf_alloc) (simp_all add: error_ok_def slice_ok_def)

lemma wf_CloneWrap:
  assumes "wf_store \<sigma>" and "CloneWrap \<sigma> a = Inr (\<sigma>', r)"
  shows "wf_store \<sigma>'"
proof -
  from assms(2) have a: "a < length (objs \<sigma>)"
    by (auto simp: CloneWrap_def Clone_def deref_def split: if_splits)
  let ?c = "\<lparr>error = error (objs \<sigma> ! a), err = err (objs \<sigma> ! a), args = args (objs \<sigma> ! a),
          validArgs = validArgs (objs \<sigma> ! a), recurs = recurs (objs \<sigma> ! a),
          sealed = sealed (objs \<sigma> ! a), locked = False, cloneWrapped = False\<rparr>"
  let ?\<sigma>1 = "fst (alloc \<sigma> ?c)"
  have wf1: "wf_store ?\<sigma>1"
    using wf_storeD [OF assms(1) a] by (intro wf_alloc [OF assms(1)]) simp_all
  have "\<sigma>' = put ?\<sigma>1 (length (objs \<sigma>)) (?c\<lparr>cloneWrapped := True, err := ErrPtr a\<rparr>)"
    using assms(2) a by (auto simp: CloneWrap_def Clone_def deref_def alloc_def)
  moreover have "wf_store (put ?\<sigma>1 (length (objs \<sigma>)) (?c\<lparr>cloneWrapped := True, err := ErrPtr a\<rparr>))"
    using wf_storeD [OF assms(1) a] a
    by (intro wf_put [OF wf1])
      (simp_all add: error_ok_def alloc_def slice_ok_def split: slice.splits)
  ultimately show ?thesis by simp
qed

lemma wf_Args:
  assumes "wf_store \<sigma>" and "Args \<sigma> a as = Inr (\<sigma>', r)"
  shows "wf_store \<sigma>'"
proof -
  from assms(2) have a: "a < length (objs \<sigma>)"
    and cw: "CloneWrap (put \<sigma> a ((objs \<sigma> ! a)\<lparr>args := as\<rparr>)) a = Inr (\<sigma>', r)"
    by (auto simp: Args_def deref_def split: if_splits sum.splits)
  have "wf_store (put \<sigma> a ((objs \<sigma> ! a)\<lparr>args := as\<rparr>))"
    using wf_storeD [OF assms(1) a] by (intro wf_put [OF assms(1)]) simp_all
  then show ?thesis using cw by (rule wf_CloneWrap)
qed

lemma wf_Err:
  assumes "wf_store \<sigma>" and "error_ok \<sigma> e" and "Err \<sigma> a e as = Inr (\<sigma>', r)"
  shows "wf_store \<sigma>'"
proof -
  from assms(3) have a: "a < length (objs \<sigma>)"
    by (auto simp: Err_def deref_def split: if_splits)
  let ?\<sigma>1 = "put \<sigma> a ((objs \<sigma> ! a)\<lparr>err := e\<rparr>)"
  have wf1: "wf_store ?\<sigma>1"
    using wf_storeD [OF assms(1) a] assms(2) by (intro wf_put [OF assms(1)]) simp_all
  show ?thesis
  proof (cases "as = []")
    case True
    with assms(3) a have "CloneWrap ?\<sigma>1 a = Inr (\<sigma>', r)"
      by (simp add: Err_def deref_def)
    with wf1 show ?thesis by (rule wf_CloneWrap)
  next
    case False
    with assms(3) a obtain \<sigma>2 se2 where "Args ?\<sigma>1 a as = Inr (\<sigma>2, se2)"
      and cw: "CloneWrap \<sigma>2 se2 = Inr (\<sigma>', r)"
      by (auto simp: Err_def deref_def split: sum.splits)
    with wf1 have "wf_store \<sigma>2" by (auto intro: wf_Args)
    then show ?thesis using cw by (rule wf_CloneWrap)
  qed
qed

text \<open>
  Two errors that are each other's cause: \<open>a := New("a"); b := New("b"); a.Err(b);
  b.Err(a)\<close>. Objects 0 and 1 are \<open>a\<close> and \<open>b\<close>, objects 2 and 3 the clones that the two
  calls of \<open>Err\<close> return.
\<close>

definition cycle2 :: store where
  "cycle2 =
     (case New empty_store ''a'' of (\<sigma>0, a) \<Rightarrow>
      case New \<sigma>0 ''b'' of (\<sigma>1, b) \<Rightarrow>
      case Err \<sigma>1 a (ErrPtr b) [] of Inl p \<Rightarrow> \<sigma>1
      | Inr (\<sigma>2, c1) \<Rightarrow>
          (case Err \<sigma>2 b (ErrPtr a) [] of Inl p \<Rightarrow> \<sigma>2 | Inr (\<sigma>3, c2) \<Rightarrow> \<sigma>3))"

lemma cycle2_eq:
  "cycle2 = \<lparr>objs =
      [\<lparr>error = ''a'', err = ErrPtr 1, args = [], validArgs = [], recurs = SliceNil,
         sealed = False, locked = False, cloneWrapped = False\<rparr>,
       \<lparr>error = ''b'', err = ErrPtr 0, args = [], validArgs = [], recurs = SliceNil,
         sealed = False, locked = False, cloneWrapped = False\<rparr>,
       \<lparr>error = ''a'', err = ErrPtr 0, args = [], validArgs = [], recurs = SliceNil,
         sealed = False, locked = False, cloneWrapped = True\<rparr>,
       \<lparr>error = ''b'', err = ErrPtr 1, args = [], validArgs = [], recurs = SliceNil,
         sealed = False, locked = False, cloneWrapped = True\<rparr>],
     arrays = []\<rparr>"
  by (simp add: cycle2_def builder_defs empty_store_def)

text \<open>
  The guard list of a clone shares its array with the original's: \<open>se := New("a");
  se.Err(x); se.Error(); c2 := se.Err(y); se.Err(c2)\<close> makes \<open>c2\<close> (object 2) and \<open>se\<close>
  each other's cause, with slices of length 0 on one array of capacity 1. Rendering
  \<open>c2\<close>, \<open>se\<close> overwrites the pointer that \<open>c2\<close> pushed, \<open>c2\<close> is entered a second
  time and pushes onto a new array; the rendering is four calls deep, and returns.
\<close>

definition shared_guard :: store where
  "shared_guard =
     (case New empty_store ''a'' of (\<sigma>0, se) \<Rightarrow>
      case Err \<sigma>0 se (ErrString ''x'') [] of Inl p \<Rightarrow> \<sigma>0
      | Inr (\<sigma>1, c1) \<Rightarrow>
          (case Error_fuel go_grow 2 \<sigma>1 se of
             Some (Inr (\<sigma>2, s)) \<Rightarrow>
               (case Err \<sigma>2 se (ErrString ''y'') [] of Inl p \<Rightarrow> \<sigma>2
                | Inr (\<sigma>3, c2) \<Rightarrow>
                    (case Err \<sigma>3 se (ErrPtr c2) [] of Inl p \<Rightarrow> \<sigma>3
                     | Inr (\<sigma>4, c3) \<Rightarrow> \<sigma>4))
           | _ \<Rightarrow> \<sigma>1))"

lemma Error_shared_guard_array:
  "arrays shared_guard = [[Some 0]]
   \<and> map recurs (objs shared_guard) = [Slice 0 0, SliceNil, Slice 0 0, Slice 0 0]
   \<and> Error_text go_grow 3 shared_guard 2 = None
   \<and> Error_text go_grow 4 shared_guard 2 = Some (Inr ''a'')"
  by code_simp

text \<open>
  C4. \<open>Error\<close> returns on every well-formed store, so also where the causes form a
  cycle, through one object or through several: with fuel beyond \<open>fuel_need\<close> the run
  returns, without a panic. What it returns is the error's own message and attributes:
  nothing of the cycle is in the text. The store it leaves has the same objects, each
  guard list as long as before.
\<close>

theorem Error_returns_on_cycles:
  assumes "wf_store \<sigma>" and "a < length (objs \<sigma>)"
  shows "\<exists>\<sigma>'. Error_fuel grow (Suc (fuel_need (length (arrays \<sigma>)) \<sigma>) + k) \<sigma> a
               = Some (Inr (\<sigma>', error (objs \<sigma> ! a) @ argsString (objs \<sigma> ! a)))
            \<and> same_frame \<sigma> \<sigma>' \<and> wf_store \<sigma>'"
proof -
  from Error_fuel_returns [OF wf_guard_inv [OF assms(1)] assms(2) lessI, of grow]
  obtain \<sigma>' where
    run: "Error_fuel grow (Suc (fuel_need (length (arrays \<sigma>)) \<sigma>)) \<sigma> a
            = Some (Inr (\<sigma>', error (objs \<sigma> ! a) @ argsString (objs \<sigma> ! a)))"
    and post: "same_frame \<sigma> \<sigma>'" "wf_store \<sigma>'" by blast
  from Error_fuel_mono [OF run, of k] post show ?thesis by blast
qed

theorem Error_returns_on_cycles_witness:
  "wf_store cycle2
   \<and> err (objs cycle2 ! 0) = ErrPtr 1 \<and> err (objs cycle2 ! 1) = ErrPtr 0
   \<and> (\<exists>\<sigma>'. Error_fuel go_grow 5 cycle2 0 = Some (Inr (\<sigma>', ''a'')))
   \<and> (\<exists>\<sigma>'. Error_fuel go_grow 5 cycle2 3 = Some (Inr (\<sigma>', ''b'')))"
proof -
  have wf: "wf_store cycle2"
    by (simp add: cycle2_eq wf_store_def error_ok_def slice_ok_def)
  have need: "Suc (fuel_need (length (arrays cycle2)) cycle2) + 0 = 5"
    by (simp add: cycle2_eq fuel_need_def room_def)
  have "\<exists>\<sigma>'. Error_fuel go_grow 5 cycle2 0 = Some (Inr (\<sigma>', ''a''))"
    using Error_returns_on_cycles [OF wf, of 0 go_grow 0] unfolding need
    by (auto simp: cycle2_eq argsString_def argsString_loop.simps)
  moreover have "\<exists>\<sigma>'. Error_fuel go_grow 5 cycle2 3 = Some (Inr (\<sigma>', ''b''))"
    using Error_returns_on_cycles [OF wf, of 3 go_grow 0] unfolding need
    by (auto simp: cycle2_eq argsString_def argsString_loop.simps)
  ultimately show ?thesis using wf by (simp add: cycle2_eq)
qed

end
